theory Spec2Isabelle
  imports Main
begin

section \<open>Errors\<close>

text \<open>
  Go errors are values. The model keeps the chain a wrapped error carries:
  \<open>io_EOF\<close> is \<open>io.EOF\<close>, \<open>New m\<close> is an error made from a plain message
  (\<open>fmt.Errorf\<close> without a verb), \<open>Errorf prefix e\<close> is
  \<open>fmt.Errorf(prefix + "%w", e)\<close>, \<open>CsvError\<close> is an error of the standard
  library's CSV reader, and \<open>Panic\<close> is a run-time panic, which no caller catches.
\<close>

datatype csv_error = ErrBareQuote | ErrQuote | errInvalidDelim

datatype error =
    io_EOF
  | New string
  | Errorf string error
  | CsvError csv_error
  | Panic string

text \<open>
  The text of the sentinel errors of \<open>encoding/csv\<close>. The line and column that a
  \<open>ParseError\<close> prints in front of the sentinel are not modelled.
\<close>

fun csv_error_text :: "csv_error \<Rightarrow> string" where
  "csv_error_text ErrBareQuote = ''bare \" in non-quoted-field''"
| "csv_error_text ErrQuote = ''extraneous or missing \" in quoted-field''"
| "csv_error_text errInvalidDelim = ''csv: invalid field or comment delimiter''"

text \<open>The method \<open>Error()\<close>: the message of an error.\<close>

fun Error_msg :: "error \<Rightarrow> string" where
  "Error_msg io_EOF = ''EOF''"
| "Error_msg (New m) = m"
| "Error_msg (Errorf prefix e) = prefix @ Error_msg e"
| "Error_msg (CsvError e) = csv_error_text e"
| "Error_msg (Panic m) = m"

fun is_Panic :: "error \<Rightarrow> bool" where
  "is_Panic (Panic m) = True"
| "is_Panic e = False"

text \<open>
  \<open>if err != nil { return nil, fmt.Errorf(prefix + "%w", err) }\<close>: an error is
  wrapped, a panic passes through unchanged.
\<close>

definition wrap :: "string \<Rightarrow> error \<Rightarrow> error" where
  "wrap prefix e = (if is_Panic e then e else Errorf prefix e)"

section \<open>Formatting of integers\<close>

text \<open>The verb \<open>%d\<close> of \<open>fmt.Sprintf\<close> on a non-negative \<open>int\<close>.\<close>

definition digit_char :: "nat \<Rightarrow> char" where
  "digit_char d = ''0123456789'' ! d"

fun Sprintf_d :: "nat \<Rightarrow> string" where
  "Sprintf_d n = (if n < 10 then [digit_char n] else Sprintf_d (n div 10) @ [digit_char (n mod 10)])"

section \<open>UTF-8 validation (unicode/utf8)\<close>

text \<open>
  \<open>utf8.Valid\<close>, as the standard library computes it: the table \<open>first\<close> gives
  for a leading byte the length of the sequence and the range accepted for its second
  byte; every further byte is a continuation byte \<open>0x80..0xBF\<close>.
  \<open>None\<close> is the table's entry \<open>xx\<close> (an illegal leading byte).
\<close>

definition first :: "nat \<Rightarrow> (nat \<times> nat \<times> nat) option" where
  "first b =
    (if b < 0xC2 then None
     else if b < 0xE0 then Some (2, 0x80, 0xBF)
     else if b = 0xE0 then Some (3, 0xA0, 0xBF)
     else if b < 0xED then Some (3, 0x80, 0xBF)
     else if b = 0xED then Some (3, 0x80, 0x9F)
     else if b < 0xF0 then Some (3, 0x80, 0xBF)
     else if b = 0xF0 then Some (4, 0x90, 0xBF)
     else if b < 0xF4 then Some (4, 0x80, 0xBF)
     else if b = 0xF4 then Some (4, 0x80, 0x8F)
     else None)"

definition in_range :: "char \<Rightarrow> nat \<Rightarrow> nat \<Rightarrow> bool" where
  "in_range c lo hi = (lo \<le> of_char c \<and> (of_char c :: nat) \<le> hi)"

fun utf8_Valid :: "string \<Rightarrow> bool" where
  "utf8_Valid [] = True"
| "utf8_Valid (c # cs) =
    (if (of_char c :: nat) < 0x80 then utf8_Valid cs
     else case first (of_char c) of
       None \<Rightarrow> False
     | Some (sz, lo, hi) \<Rightarrow>
         if 1 + length cs < sz then False
         else if \<not> in_range (cs ! 0) lo hi then False
         else if sz = 2 then utf8_Valid (drop 1 cs)
         else if \<not> in_range (cs ! 1) 0x80 0xBF then False
         else if sz = 3 then utf8_Valid (drop 2 cs)
         else if \<not> in_range (cs ! 2) 0x80 0xBF then False
         else utf8_Valid (drop 3 cs))"

section \<open>The CSV reader of the standard library (encoding/csv)\<close>

text \<open>
  The program reads records through \<open>csv.Reader\<close> with \<open>Comma\<close> set to the
  delimiter and \<open>FieldsPerRecord = -1\<close>; every other option keeps its default
  (no comment character, no lazy quotes, no trimming). The model follows the reader's
  \<open>readLine\<close> and \<open>readRecord\<close> over the bytes that are left to read.
\<close>

definition NL :: char where "NL = CHR 0x0A"
definition CR :: char where "CR = CHR 0x0D"
definition quote :: char where "quote = CHR 0x22"

text \<open>\<open>lengthNL\<close>: 1 when the line ends in a newline, else 0.\<close>

definition lengthNL :: "string \<Rightarrow> nat" where
  "lengthNL b = (if b \<noteq> [] \<and> last b = NL then 1 else 0)"

text \<open>
  \<open>readLine\<close>: the next line with its newline, or \<open>None\<close> at the end of the
  input. A carriage return before the newline, or before the end of the input, is
  dropped. The result carries the bytes left after the line.
\<close>

definition readLine :: "string \<Rightarrow> (string \<times> string) option" where
  "readLine bs =
    (if bs = [] then None
     else
       let l = takeWhile (\<lambda>c. c \<noteq> NL) bs;
           r = dropWhile (\<lambda>c. c \<noteq> NL) bs;
           l' = (if l \<noteq> [] \<and> last l = CR then butlast l else l)
       in if r = [] then Some (l', []) else Some (l' @ [NL], tl r))"

text \<open>
  The delimiter is \<open>rune(delimiter[0])\<close>: the first byte of the delimiter string,
  read as a code point below 256. \<open>rune_bytes\<close> is its UTF-8 encoding, which the
  reader searches for in a line.
\<close>

definition rune_bytes :: "char \<Rightarrow> string" where
  "rune_bytes c =
    (if (of_char c :: nat) < 0x80 then [c]
     else [char_of (0xC0 + (of_char c :: nat) div 64), char_of (0x80 + (of_char c :: nat) mod 64)])"

definition validDelim :: "char \<Rightarrow> bool" where
  "validDelim c = (c \<noteq> CHR 0x00 \<and> c \<noteq> quote \<and> c \<noteq> CR \<and> c \<noteq> NL)"

text \<open>\<open>bytes.HasPrefix\<close> and \<open>bytes.Index\<close>.\<close>

definition HasPrefix :: "string \<Rightarrow> string \<Rightarrow> bool" where
  "HasPrefix s pre = (take (length pre) s = pre)"

fun Index :: "string \<Rightarrow> string \<Rightarrow> nat option" where
  "Index [] sep = (if sep = [] then Some 0 else None)"
| "Index (x # xs) sep =
    (if HasPrefix (x # xs) sep then Some 0 else map_option Suc (Index xs sep))"


lemma rune_bytes_nonempty: "rune_bytes c \<noteq> []"
  by (simp add: rune_bytes_def)

lemma HasPrefix_length: "HasPrefix s pre \<Longrightarrow> length pre \<le> length s"
proof -
  assume "HasPrefix s pre"
  then have "length (take (length pre) s) = length pre"
    by (simp only: HasPrefix_def)
  then show ?thesis by simp
qed

lemma Index_bound: "Index xs sep = Some i \<Longrightarrow> i + length sep \<le> length xs"
proof (induction xs arbitrary: i)
  case Nil
  then show ?case by (simp split: if_splits)
next
  case (Cons x xs)
  show ?case
  proof (cases "HasPrefix (x # xs) sep")
    case True
    with Cons.prems have "i = 0" by simp
    with HasPrefix_length [OF True] show ?thesis by simp
  next
    case False
    with Cons.prems have "map_option Suc (Index xs sep) = Some i" by simp
    then obtain j where j: "Index xs sep = Some j" "i = Suc j"
      by (cases "Index xs sep") auto
    from Cons.IH [OF j(1)] j(2) show ?thesis by simp
  qed
qed

lemma readLine_length:
  assumes "readLine bs = Some (l, r)"
  shows "length l + length r \<le> length bs" and "length r < length bs"
proof -
  define tw where "tw = takeWhile (\<lambda>c. c \<noteq> NL) bs"
  define dw where "dw = dropWhile (\<lambda>c. c \<noteq> NL) bs"
  define tw' where "tw' = (if tw \<noteq> [] \<and> last tw = CR then butlast tw else tw)"
  have ne: "bs \<noteq> []" using assms by (auto simp: readLine_def)
  have len: "length tw + length dw = length bs"
    unfolding tw_def dw_def by (metis length_append takeWhile_dropWhile_id)
  have short: "length tw' \<le> length tw"
    unfolding tw'_def by simp
  have eq: "(l, r) = (if dw = [] then (tw', []) else (tw' @ [NL], tl dw))"
    using assms ne unfolding readLine_def tw_def dw_def tw'_def Let_def
    by (auto split: if_splits)
  show "length l + length r \<le> length bs"
  proof (cases dw)
    case Nil
    with eq short len show ?thesis by simp
  next
    case (Cons d ds)
    with eq short len show ?thesis by simp
  qed
  show "length r < length bs"
  proof (cases dw)
    case Nil
    with eq ne show ?thesis by simp
  next
    case (Cons d ds)
    with eq len show ?thesis by simp
  qed
qed

datatype csv_outcome = Rec "string list" | Bad csv_error

function parseField :: "char \<Rightarrow> string list \<Rightarrow> string \<Rightarrow> string \<Rightarrow> csv_outcome \<times> string"
  and parseQuoted :: "char \<Rightarrow> string list \<Rightarrow> string \<Rightarrow> string \<Rightarrow> string \<Rightarrow> csv_outcome \<times> string"
where
  "parseField c fields line rest =
    (if line = [] \<or> hd line \<noteq> quote then
       (case Index line (rune_bytes c) of
          Some i \<Rightarrow>
            if quote \<in> set (take i line) then (Bad ErrBareQuote, rest)
            else parseField c (fields @ [take i line]) (drop (i + length (rune_bytes c)) line) rest
        | None \<Rightarrow>
            if quote \<in> set (take (length line - lengthNL line) line) then (Bad ErrBareQuote, rest)
            else (Rec (fields @ [take (length line - lengthNL line) line]), rest))
     else parseQuoted c fields [] (tl line) rest)"
| "parseQuoted c fields cur line rest =
    (case Index line [quote] of
       Some i \<Rightarrow>
         if HasPrefix (drop (i + 1) line) [quote]
           then parseQuoted c fields (cur @ take i line @ [quote]) (drop (i + 2) line) rest
         else if HasPrefix (drop (i + 1) line) (rune_bytes c)
           then parseField c (fields @ [cur @ take i line])
                  (drop (i + 1 + length (rune_bytes c)) line) rest
         else if lengthNL (drop (i + 1) line) = length (drop (i + 1) line)
           then (Rec (fields @ [cur @ take i line]), rest)
         else (Bad ErrQuote, rest)
     | None \<Rightarrow>
         if line \<noteq> [] then
           (case readLine rest of
              Some (l, r) \<Rightarrow> parseQuoted c fields (cur @ line) l r
            | None \<Rightarrow> parseQuoted c fields (cur @ line) [] [])
         else (Bad ErrQuote, rest))"
  by pat_completeness auto
termination
proof (relation "measure (\<lambda>x. case x of
          Inl (c, fields, line, rest) \<Rightarrow> length line + length rest
        | Inr (c, fields, cur, line, rest) \<Rightarrow> length line + length rest)", simp_all, goal_cases)
  case (1 c line i)
  from Index_bound [OF 1(2)] rune_bytes_nonempty [of c] show ?case
    by (cases "rune_bytes c") auto
next
  case (2 line rest x2 l r)
  then have "readLine rest = Some (l, r)" by simp
  from readLine_length(1) [OF this] 2 show ?case
    by (cases line) auto
next
  case (3 line i)
  from Index_bound [OF 3(1)] show ?case by simp
next
  case (4 c line i)
  from Index_bound [OF 4(1)] show ?case by simp
qed

declare parseField.simps [simp del] parseQuoted.simps [simp del]


text \<open>
  \<open>readRecord\<close> up to the loop \<open>parseField\<close>: lines that are empty are skipped,
  and \<open>None\<close> is \<open>io.EOF\<close>.
\<close>

function readRecord :: "char \<Rightarrow> string \<Rightarrow> csv_outcome option \<times> string" where
  "readRecord c bs =
    (case readLine bs of
       None \<Rightarrow> (None, [])
     | Some (line, rest) \<Rightarrow>
         if length line = lengthNL line then readRecord c rest
         else (case parseField c [] line rest of (out, rest') \<Rightarrow> (Some out, rest')))"
  by pat_completeness auto
termination
proof (relation "measure (\<lambda>(c, bs). length bs)", goal_cases)
  case 1
  show ?case by simp
next
  case (2 c bs x2 line rest)
  then have "readLine bs = Some (line, rest)" by simp
  from readLine_length(2) [OF this] show ?case by simp
qed

declare readRecord.simps [simp del]

lemma parse_rest_length:
  "length (snd (parseField c fields line rest)) \<le> length rest"
  "length (snd (parseQuoted c fields cur line rest)) \<le> length rest"
proof (induction c fields line rest and c fields cur line rest rule: parseField_parseQuoted.induct)
  case (1 c fields line rest)
  note unfold = parseField.simps [of c fields line rest]
  show ?case
  proof (cases "line = [] \<or> hd line \<noteq> quote")
    case plain: True
    show ?thesis
    proof (cases "Index line (rune_bytes c)")
      case None
      with plain show ?thesis by (subst unfold) simp
    next
      case (Some i)
      show ?thesis
      proof (cases "quote \<in> set (take i line)")
        case True
        with plain Some show ?thesis by (subst unfold) simp
      next
        case False
        from "1.IH"(1) [OF plain Some False] plain Some False show ?thesis
          by (subst unfold) simp
      qed
    qed
  next
    case quoted: False
    from "1.IH"(2) [OF quoted] quoted show ?thesis
      by (subst unfold) simp
  qed
next
  case (2 c fields cur line rest)
  note unfold = parseQuoted.simps [of c fields cur line rest]
  show ?case
  proof (cases "Index line [quote]")
    case None
    show ?thesis
    proof (cases "line = []")
      case True
      with None show ?thesis by (subst unfold) simp
    next
      case False
      show ?thesis
      proof (cases "readLine rest")
        case eof: None
        from "2.IH"(1) [OF None False eof] None False eof show ?thesis
          by (subst unfold) simp
      next
        case (Some lr)
        obtain l r where lr: "lr = (l, r)" by (cases lr)
        from readLine_length(2) [of rest l r] Some lr have "length r \<le> length rest"
          by simp
        with "2.IH"(2) [OF None False Some lr [symmetric]] None False Some lr show ?thesis
          by (subst unfold) simp
      qed
    qed
  next
    case (Some i)
    show ?thesis
    proof (cases "HasPrefix (drop (i + 1) line) [quote]")
      case True
      from "2.IH"(3) [OF Some True] Some True show ?thesis
        by (subst unfold) simp
    next
      case nq: False
      show ?thesis
      proof (cases "HasPrefix (drop (i + 1) line) (rune_bytes c)")
        case True
        from "2.IH"(4) [OF Some nq True] Some nq True show ?thesis
          by (subst unfold) simp
      next
        case False
        with Some nq show ?thesis by (subst unfold) simp
      qed
    qed
  qed
qed

lemma readRecord_length:
  "readRecord c bs = (Some out, rest') \<Longrightarrow> length rest' < length bs"
proof (induction c bs rule: readRecord.induct)
  case (1 c bs)
  from "1.prems" obtain line rest where rl: "readLine bs = Some (line, rest)"
    by (subst (asm) readRecord.simps) (auto split: option.splits)
  note shorter = readLine_length(2) [OF rl]
  show ?case
  proof (cases "length line = lengthNL line")
    case True
    with "1.prems" rl have "readRecord c rest = (Some out, rest')"
      by (subst (asm) readRecord.simps) simp
    with "1.IH" [OF rl refl True] shorter show ?thesis by simp
  next
    case False
    with "1.prems" rl have "rest' = snd (parseField c [] line rest)"
      by (subst (asm) readRecord.simps) (auto split: prod.splits)
    with parse_rest_length(1) [of c "[]" line rest] shorter show ?thesis by simp
  qed
qed

text \<open>
  The records of an input: what the successive calls of \<open>Read\<close> return until
  \<open>io.EOF\<close>.
\<close>

function csv_ReadAll :: "char \<Rightarrow> string \<Rightarrow> csv_outcome list" where
  "csv_ReadAll c bs =
    (case readRecord c bs of
       (None, rest) \<Rightarrow> []
     | (Some out, rest) \<Rightarrow> out # csv_ReadAll c rest)"
  by pat_completeness auto
termination
proof (relation "measure (\<lambda>(c, bs). length bs)", goal_cases)
  case 1
  show ?case by simp
next
  case (2 c bs x1 rest out)
  then have "readRecord c bs = (Some out, rest)" by simp
  from readRecord_length [OF this] show ?case by simp
qed

declare csv_ReadAll.simps [simp del]

text \<open>
  The reader: its delimiter and the input it has not read yet. \<open>csv.NewReader\<close>
  sets the comma as delimiter; the program then stores its own.
\<close>

record csv_Reader =
  Comma :: char
  unread :: string

definition csv_NewReader :: "string \<Rightarrow> csv_Reader" where
  "csv_NewReader bs = \<lparr>Comma = CHR '','', unread = bs\<rparr>"

definition csv_Read :: "csv_Reader \<Rightarrow> (error + string list) \<times> csv_Reader" where
  "csv_Read r =
    (if \<not> validDelim (Comma r) then (Inl (CsvError errInvalidDelim), r)
     else case readRecord (Comma r) (unread r) of
       (None, rest) \<Rightarrow> (Inl io_EOF, r\<lparr>unread := rest\<rparr>)
     | (Some (Rec fs), rest) \<Rightarrow> (Inr fs, r\<lparr>unread := rest\<rparr>)
     | (Some (Bad e), rest) \<Rightarrow> (Inl (CsvError e), r\<lparr>unread := rest\<rparr>))"

lemma csv_Read_shorter:
  "csv_Read r = (Inr rcd, r') \<Longrightarrow> length (unread r') < length (unread r)"
  by (auto simp: csv_Read_def split: if_splits prod.splits option.splits csv_outcome.splits
      dest: readRecord_length)

section \<open>The parser (package parser, reading from an io.Reader)\<close>

text \<open>
  The sources hold two revisions of the package \<open>parser\<close>. This section follows the
  one that reads from an \<open>io.Reader\<close>, the next section the one that opens a file.
  The type \<open>Row\<close> and \<open>ReadRow\<close> are the same in both.
\<close>

text \<open>
  An \<open>io.Reader\<close> is modelled by what reading it gives: its bytes, and then the
  end of the input (\<open>None\<close>) or the error of a failed read. \<open>io_Copy\<close> reads
  it to the end.
\<close>

datatype io_Reader = Reader string "error option"

fun io_Copy :: "io_Reader \<Rightarrow> error + string" where
  "io_Copy (Reader bs None) = Inr bs"
| "io_Copy (Reader bs (Some e)) = Inl e"

record Parser =
  reader :: csv_Reader
  lineNumber :: nat
  headers :: "string list"
  buffer :: string
  delimiter :: char

record Row =
  Row_LineNumber :: nat
  Row_Data :: "string list"
  Row_Headers :: "string list"

definition IsEmpty :: "Row \<Rightarrow> bool" where
  "IsEmpty r =
    (if length (Row_Data r) = 0 then True
     else if length (Row_Data r) = 1 \<and> Row_Data r ! 0 = [] then True
     else list_all (\<lambda>field. field = []) (Row_Data r))"

text \<open>
  \<open>NewParser\<close> reads the whole input into the buffer. \<open>delimiter[0]\<close> panics on
  an empty delimiter string.
\<close>

definition NewParser :: "io_Reader \<Rightarrow> string \<Rightarrow> error + Parser" where
  "NewParser inp delim =
    (case io_Copy inp of
       Inl e \<Rightarrow> Inl (Errorf ''failed to read input: '' e)
     | Inr bytes \<Rightarrow>
         (case delim of
            [] \<Rightarrow> Inl (Panic ''runtime error: index out of range [0] with length 0'')
          | d # ds \<Rightarrow>
              Inr \<lparr>reader = (csv_NewReader bytes)\<lparr>Comma := d\<rparr>, lineNumber = 0,
                   headers = [], buffer = bytes, delimiter = d\<rparr>))"

definition ReadHeaders :: "Parser \<Rightarrow> (error + string list) \<times> Parser" where
  "ReadHeaders p =
    (case csv_Read (reader p) of
       (Inl err, r) \<Rightarrow>
         (if err = io_EOF then Inl (New ''empty input: no headers found'')
          else Inl (Errorf ''failed to read headers: '' err), p\<lparr>reader := r\<rparr>)
     | (Inr hs, r) \<Rightarrow>
         (Inr hs, p\<lparr>reader := r, lineNumber := lineNumber p + 1, headers := hs\<rparr>))"

definition ReadRow :: "Parser \<Rightarrow> (error + Row) \<times> Parser" where
  "ReadRow p =
    (case csv_Read (reader p) of
       (Inl err, r) \<Rightarrow>
         (if err = io_EOF then Inl io_EOF
          else Inl (Errorf (''failed to read row '' @ Sprintf_d (lineNumber p + 1) @ '': '') err),
          p\<lparr>reader := r\<rparr>)
     | (Inr rcd, r) \<Rightarrow>
         (Inr \<lparr>Row_LineNumber = lineNumber p + 1, Row_Data = rcd, Row_Headers = headers p\<rparr>,
          p\<lparr>reader := r, lineNumber := lineNumber p + 1\<rparr>))"

text \<open>
  \<open>ValidateUTF8\<close> checks the whole buffer, then makes a new reader over it.
\<close>

definition ValidateUTF8 :: "Parser \<Rightarrow> error option \<times> Parser" where
  "ValidateUTF8 p =
    (if \<not> utf8_Valid (buffer p) then (Some (New ''input contains invalid UTF-8 encoding''), p)
     else (None, p\<lparr>reader := (csv_NewReader (buffer p))\<lparr>Comma := delimiter p\<rparr>\<rparr>))"

definition GetLineNumber :: "Parser \<Rightarrow> nat" where
  "GetLineNumber p = lineNumber p"

lemma ReadRow_shorter:
  "ReadRow p = (Inr row, p') \<Longrightarrow> length (unread (reader p')) < length (unread (reader p))"
  by (auto simp: ReadRow_def split: prod.splits sum.splits if_splits dest: csv_Read_shorter)

section \<open>The parser over a file (package parser, internal/parser/parser.go)\<close>

text \<open>
  The revision of the parser in \<open>internal/parser/parser.go\<close> opens the file itself; it
  is the parser that \<open>Validate\<close> creates from its file path. \<open>os.Open\<close> is a
  parameter of the model: for a path it gives the error of the call or the bytes of the
  file. The file is modelled by its bytes, and reading and rewinding it succeed.
\<close>

record FileParser =
  file_bytes :: string
  file_reader :: csv_Reader
  file_lineNumber :: nat
  file_headers :: "string list"

text \<open>
  \<open>NewParser(filePath, delimiter)\<close>. \<open>delimiter[0]\<close> panics on an empty delimiter
  string, after the file is open.
\<close>

definition File_NewParser :: "(string \<Rightarrow> error + string) \<Rightarrow> string \<Rightarrow> string \<Rightarrow> error + FileParser" where
  "File_NewParser os_Open path delim =
    (case os_Open path of
       Inl err \<Rightarrow> Inl (Errorf ''failed to open file: '' err)
     | Inr bytes \<Rightarrow>
         (case delim of
            [] \<Rightarrow> Inl (Panic ''runtime error: index out of range [0] with length 0'')
          | d # ds \<Rightarrow>
              Inr \<lparr>file_bytes = bytes, file_reader = (csv_NewReader bytes)\<lparr>Comma := d\<rparr>,
                   file_lineNumber = 0, file_headers = []\<rparr>))"

text \<open>
  \<open>ReadHeaders\<close> wraps every error of the reader, \<open>io.EOF\<close> among them.
\<close>

definition File_ReadHeaders :: "FileParser \<Rightarrow> (error + string list) \<times> FileParser" where
  "File_ReadHeaders p =
    (case csv_Read (file_reader p) of
       (Inl err, r) \<Rightarrow> (Inl (Errorf ''failed to read headers: '' err), p\<lparr>file_reader := r\<rparr>)
     | (Inr hs, r) \<Rightarrow>
         (Inr hs, p\<lparr>file_reader := r, file_lineNumber := file_lineNumber p + 1,
                    file_headers := hs\<rparr>))"

definition File_ReadRow :: "FileParser \<Rightarrow> (error + Row) \<times> FileParser" where
  "File_ReadRow p =
    (case csv_Read (file_reader p) of
       (Inl err, r) \<Rightarrow>
         (if err = io_EOF then Inl io_EOF
          else Inl (Errorf (''failed to read row '' @ Sprintf_d (file_lineNumber p + 1) @ '': '') err),
          p\<lparr>file_reader := r\<rparr>)
     | (Inr rcd, r) \<Rightarrow>
         (Inr \<lparr>Row_LineNumber = file_lineNumber p + 1, Row_Data = rcd,
               Row_Headers = file_headers p\<rparr>,
          p\<lparr>file_reader := r, file_lineNumber := file_lineNumber p + 1\<rparr>))"

text \<open>
  \<open>ValidateUTF8\<close> rewinds the file, reads it through a \<open>bufio.Reader\<close> into a
  buffer of 4096 bytes and checks each filling of the buffer on its own. For a regular
  file each read but the last fills the buffer, so the chunks are the successive blocks of
  4096 bytes.
\<close>

function chunks_valid :: "string \<Rightarrow> bool" where
  "chunks_valid bs =
    (if bs = [] then True
     else if \<not> utf8_Valid (take 4096 bs) then False
     else chunks_valid (drop 4096 bs))"
  by pat_completeness auto
termination
  by (relation "measure length") auto

declare chunks_valid.simps [simp del]

text \<open>
  After the check the reader is made anew over the file; the assignment
  \<open>p.reader.Comma = p.reader.Comma\<close> leaves it with the comma of a new reader, so
  from here on the records are split at commas, whatever the delimiter was. When the
  check fails the parser stays as it is; \<open>Validate\<close> does not read from it again.
\<close>

definition File_ValidateUTF8 :: "FileParser \<Rightarrow> error option \<times> FileParser" where
  "File_ValidateUTF8 p =
    (if \<not> chunks_valid (file_bytes p) then (Some (New ''file contains invalid UTF-8 encoding''), p)
     else (None, p\<lparr>file_reader := csv_NewReader (file_bytes p)\<rparr>))"

definition File_GetLineNumber :: "FileParser \<Rightarrow> nat" where
  "File_GetLineNumber p = file_lineNumber p"

lemma File_ReadRow_shorter:
  "File_ReadRow p = (Inr row, p') \<Longrightarrow>
   length (unread (file_reader p')) < length (unread (file_reader p))"
  by (auto simp: File_ReadRow_def split: prod.splits sum.splits if_splits dest: csv_Read_shorter)

lemma utf8_Valid_append:
  "utf8_Valid xs \<Longrightarrow> utf8_Valid (xs @ ys) = utf8_Valid ys"
proof (induction xs rule: utf8_Valid.induct)
  case 1
  show ?case by simp
next
  case (2 c cs)
  show ?case
  proof (cases "(of_char c :: nat) < 0x80")
    case True
    with 2 show ?thesis by simp
  next
    case False
    with "2.prems" obtain sz lo hi where f: "first (of_char c) = Some (sz, lo, hi)"
      by (cases "first (of_char c)") auto
    from f have sz: "sz = 2 \<or> sz = 3 \<or> sz = 4"
      by (auto simp: first_def split: if_splits)
    from "2.prems" False f have len: "\<not> 1 + length cs < sz" and r0: "in_range (cs ! 0) lo hi"
      by (auto split: if_splits)
    show ?thesis
    proof (cases "sz = 2")
      case True
      with len obtain c1 cs' where cs: "cs = c1 # cs'" by (cases cs) auto
      from "2.prems" False f len r0 True have v: "utf8_Valid (drop 1 cs)" by simp
      from "2.IH"(2) [OF False f refl refl _ _ True v] len r0 True
      have "utf8_Valid (drop 1 cs @ ys) = utf8_Valid ys" by simp
      with False f r0 True cs show ?thesis
        by simp
    next
      case n2: False
      with sz len obtain c1 c2 cs' where cs: "cs = c1 # c2 # cs'"
        by (cases cs; cases "tl cs") auto
      from "2.prems" False f len r0 n2 have r1: "in_range (cs ! 1) 0x80 0xBF"
        by (auto split: if_splits)
      show ?thesis
      proof (cases "sz = 3")
        case True
        from "2.prems" False f len r0 r1 True have v: "utf8_Valid (drop 2 cs)" by simp
        from "2.IH"(3) [OF False f refl refl _ _ n2 _ True v] len r0 r1 True
        have "utf8_Valid (drop 2 cs @ ys) = utf8_Valid ys" by simp
        with False f r0 r1 True cs show ?thesis
          by simp
      next
        case n3: False
        with sz n2 have s4: "sz = 4" by simp
        with len cs obtain c3 cs'' where cs3: "cs = c1 # c2 # c3 # cs''"
          by (cases cs') auto
        from "2.prems" False f len r0 r1 s4 have r2: "in_range (cs ! 2) 0x80 0xBF"
          and v: "utf8_Valid (drop 3 cs)"
          by (auto split: if_splits)
        from "2.IH"(4) [OF False f refl refl _ _ n2 _ n3 _ v] len r0 r1 r2
        have "utf8_Valid (drop 3 cs @ ys) = utf8_Valid ys" by simp
        with False f r0 r1 r2 s4 cs3 show ?thesis
          by simp
      qed
    qed
  qed
qed


text \<open>
  The check by chunks never accepts an input that is not valid UTF-8; it is the valid
  inputs it can reject.
\<close>

lemma chunks_valid_sound: "chunks_valid bs \<Longrightarrow> utf8_Valid bs"
proof (induction bs rule: chunks_valid.induct)
  case (1 bs)
  show ?case
  proof (cases "bs = []")
    case True
    then show ?thesis by simp
  next
    case False
    with "1.prems" have chunk: "utf8_Valid (take 4096 bs)" and rest: "chunks_valid (drop 4096 bs)"
      by (subst (asm) chunks_valid.simps, simp split: if_splits)+
    from "1.IH" [OF False _ rest] chunk have "utf8_Valid (drop 4096 bs)" by simp
    with utf8_Valid_append [OF chunk, of "drop 4096 bs"] show ?thesis by simp
  qed
qed

section \<open>The schema validator (package schema)\<close>

text \<open>
  \<open>strconv.Atoi\<close> on a 64-bit platform: an optional sign and decimal digits, with
  a value that fits \<open>int\<close>.
\<close>

definition is_digit :: "char \<Rightarrow> bool" where
  "is_digit c = (48 \<le> (of_char c :: nat) \<and> (of_char c :: nat) \<le> 57)"

definition decimal :: "string \<Rightarrow> nat" where
  "decimal ds = foldl (\<lambda>n ch. n * 10 + ((of_char ch :: nat) - 48)) 0 ds"

definition Atoi :: "string \<Rightarrow> int option" where
  "Atoi s =
    (let body = (if s \<noteq> [] \<and> (hd s = CHR ''-'' \<or> hd s = CHR ''+'') then tl s else s) in
     if body = [] \<or> \<not> list_all is_digit body then None
     else
       let n = (if hd s = CHR ''-'' then - int (decimal body) else int (decimal body))
       in if - (2 ^ 63) \<le> n \<and> n \<le> 2 ^ 63 - 1 then Some n else None)"

text \<open>
  Floating-point numbers stay abstract: \<open>'f\<close> is the type \<open>float64\<close>, and the two
  library functions the program applies to it are parameters.
  \<open>ParseFloat\<close> is \<open>strconv.ParseFloat(s, 64)\<close> (\<open>None\<close> when it returns an
  error) and \<open>FormatFloat\<close> is the verb \<open>%v\<close> on a \<open>float64\<close>.
\<close>

record 'f float64 =
  ParseFloat :: "string \<Rightarrow> 'f option"
  FormatFloat :: "'f \<Rightarrow> string"

text \<open>The values the program stores in the \<open>map[string]interface{}\<close> of a row.\<close>

datatype 'f Any = AnyString string | AnyInt int | AnyFloat 'f

text \<open>
  The compiled schema of the library \<open>jsonschema\<close> is a parameter of the program.
  The model keeps what the program reads of it: for each declared property the list
  \<open>Types\<close> of its schema, in the order the library stores them, and the result of
  \<open>Validate\<close> on a row: no error, a \<open>*jsonschema.ValidationError\<close> (instance
  location, message, causes), or another error.
\<close>

datatype jsonschema_ValidationError =
  ValidationError string string "jsonschema_ValidationError list"

datatype jsonschema_result =
    Accepted
  | Invalid jsonschema_ValidationError
  | Failed error

record 'f jsonschema_Schema =
  Properties :: "string \<rightharpoonup> string list"
  schema_Validate :: "(string \<rightharpoonup> 'f Any) \<Rightarrow> jsonschema_result"

record 'f schema_Validator =
  schema :: "'f jsonschema_Schema"

record schema_ValidationError =
  VField :: string
  VMessage :: string
  VValue :: string

text \<open>
  The conversion loop of \<open>ValidateRow\<close> over \<open>prop.Types\<close>: the value starts as
  the raw string, and the first type of the list that is \<open>integer\<close> or
  \<open>number\<close> and converts the string ends the loop.
\<close>

fun convert :: "'f float64 \<Rightarrow> string list \<Rightarrow> string \<Rightarrow> 'f Any" where
  "convert F [] d = AnyString d"
| "convert F (t # ts) d =
    (if t = ''integer'' then
       (case Atoi d of Some v \<Rightarrow> AnyInt v | None \<Rightarrow> convert F ts d)
     else if t = ''number'' then
       (case ParseFloat F d of Some v \<Rightarrow> AnyFloat v | None \<Rightarrow> convert F ts d)
     else convert F ts d)"

definition typed_value :: "'f float64 \<Rightarrow> 'f schema_Validator \<Rightarrow> string \<Rightarrow> string \<Rightarrow> 'f Any" where
  "typed_value F v header d =
    (case Properties (schema v) header of
       Some types \<Rightarrow> convert F types d
     | None \<Rightarrow> AnyString d)"

text \<open>
  \<open>rowData\<close>: the map the loop over the headers builds. The loop runs only when
  the row has as many fields as there are headers; a later header of the same name
  overwrites an earlier one.
\<close>

definition rowData :: "'f float64 \<Rightarrow> 'f schema_Validator \<Rightarrow> string list \<Rightarrow> string list
    \<Rightarrow> (string \<rightharpoonup> 'f Any)" where
  "rowData F v hs ds =
    foldl (\<lambda>m (header, d). m(header \<mapsto> typed_value F v header d)) Map.empty (zip hs ds)"

definition TrimPrefix :: "string \<Rightarrow> string \<Rightarrow> string" where
  "TrimPrefix s pre = (if HasPrefix s pre then drop (length pre) s else s)"

text \<open>The verb \<open>%v\<close> on a value of the row.\<close>

definition Sprintf_int :: "int \<Rightarrow> string" where
  "Sprintf_int i = (if i < 0 then CHR ''-'' # Sprintf_d (nat (- i)) else Sprintf_d (nat i))"

fun Sprintf_v :: "'f float64 \<Rightarrow> 'f Any \<Rightarrow> string" where
  "Sprintf_v F (AnyString s) = s"
| "Sprintf_v F (AnyInt i) = Sprintf_int i"
| "Sprintf_v F (AnyFloat x) = FormatFloat F x"

fun convertValidationErrors :: "'f float64 \<Rightarrow> jsonschema_ValidationError \<Rightarrow> (string \<rightharpoonup> 'f Any)
    \<Rightarrow> schema_ValidationError list" where
  "convertValidationErrors F (ValidationError loc msg causes) rd =
    (if loc \<noteq> [] then
       [\<lparr>VField = TrimPrefix loc ''/'', VMessage = msg,
         VValue = (case rd (TrimPrefix loc ''/'') of Some val \<Rightarrow> Sprintf_v F val | None \<Rightarrow> [])\<rparr>]
     else [])
    @ concat (map (\<lambda>cause. convertValidationErrors F cause rd) causes)"

definition ValidateRow :: "'f float64 \<Rightarrow> 'f schema_Validator \<Rightarrow> string list \<Rightarrow> string list
    \<Rightarrow> error + schema_ValidationError list" where
  "ValidateRow F v hs ds =
    (if length hs \<noteq> length ds then
       Inr [\<lparr>VField = ''row'',
             VMessage = ''mismatched columns: headers='' @ Sprintf_d (length hs)
                        @ '', data='' @ Sprintf_d (length ds),
             VValue = []\<rparr>]
     else
       (case schema_Validate (schema v) (rowData F v hs ds) of
          Accepted \<Rightarrow> Inr []
        | Invalid e \<Rightarrow> Inr (convertValidationErrors F e (rowData F v hs ds))
        | Failed err \<Rightarrow> Inl (Errorf ''schema validation error: '' err)))"

section \<open>The validation engine (package validator)\<close>

record Error =
  LineNumber :: nat
  Field' :: string
  Message :: string
  Value :: string
  Type :: string

record Warning =
  Warning_LineNumber :: nat
  Warning_Field :: string
  Warning_Message :: string
  Warning_Value :: string
  Warning_Type :: string

record Results =
  File :: string
  TotalRows :: nat
  Errors :: "Error list"
  Warnings :: "Warning list"
  Duration :: string
  Valid :: bool
  SchemaUsed :: bool

text \<open>
  The validator holds the path of the file, the delimiter string, the schema validator
  (\<open>None\<close> is \<open>nil\<close>) and the fail-fast switch.
\<close>

record 'f Validator =
  filePath :: string
  vdelimiter :: string
  schemaValidator :: "'f schema_Validator option"
  failFast :: bool

text \<open>
  The body of the loop of \<open>Validate\<close> after the row is read. \<open>structure_errors\<close>
  is what the count check appends, \<open>schema_errors\<close> what the loop over the issues of
  \<open>ValidateRow\<close> appends, and \<open>row_errors\<close> the errors the row adds in all, or
  the error that ends the run.
\<close>

definition structure_errors :: "string list \<Rightarrow> Row \<Rightarrow> Error list" where
  "structure_errors hs row =
    (if length (Row_Data row) \<noteq> length hs then
       [\<lparr>LineNumber = Row_LineNumber row, Field' = ''row'',
         Message = ''column count mismatch: expected '' @ Sprintf_d (length hs)
                   @ '', got '' @ Sprintf_d (length (Row_Data row)),
         Value = [], Type = ''structure''\<rparr>]
     else [])"

definition schema_errors :: "Row \<Rightarrow> schema_ValidationError list \<Rightarrow> Error list" where
  "schema_errors row schemaErrors =
    map (\<lambda>schemaErr.
           \<lparr>LineNumber = Row_LineNumber row, Field' = VField schemaErr,
            Message = VMessage schemaErr, Value = VValue schemaErr,
            Type = ''schema''\<rparr>) schemaErrors"

definition row_errors :: "'f float64 \<Rightarrow> 'f Validator \<Rightarrow> string list \<Rightarrow> Row \<Rightarrow> error + Error list" where
  "row_errors F v hs row =
    (case schemaValidator v of
       None \<Rightarrow> Inr (structure_errors hs row)
     | Some sv \<Rightarrow>
         (case ValidateRow F sv hs (Row_Data row) of
            Inl err \<Rightarrow>
              Inl (Errorf (''schema validation error on line '' @ Sprintf_d (Row_LineNumber row)
                           @ '': '') err)
          | Inr schemaErrors \<Rightarrow> Inr (structure_errors hs row @ schema_errors row schemaErrors)))"

text \<open>
  The loop of \<open>Validate\<close>. It returns the errors, the number of rows and the parser
  as the loop leaves them, or the error the run ends with.
\<close>

function validate_rows :: "'f float64 \<Rightarrow> 'f Validator \<Rightarrow> string list \<Rightarrow> FileParser \<Rightarrow> Error list
    \<Rightarrow> nat \<Rightarrow> error + (Error list \<times> nat \<times> FileParser)" where
  "validate_rows F v hs p errors totalRows =
    (case File_ReadRow p of
       (Inl err, p') \<Rightarrow>
         if Error_msg err = ''EOF'' then Inr (errors, totalRows, p')
         else Inl (Errorf ''failed to read row: '' err)
     | (Inr row, p') \<Rightarrow>
         (case row_errors F v hs row of
            Inl err \<Rightarrow> Inl err
          | Inr es \<Rightarrow>
              if failFast v \<and> errors @ es \<noteq> [] then Inr (errors @ es, totalRows + 1, p')
              else validate_rows F v hs p' (errors @ es) (totalRows + 1)))"
  by pat_completeness auto
termination
proof (relation "measure (\<lambda>(F, v, hs, p, errors, totalRows). length (unread (file_reader p)))",
    goal_cases)
  case 1
  show ?case by simp
next
  case (2 F v hs p errors totalRows x1 p' row es)
  then have "File_ReadRow p = (Inr row, p')" by simp
  from File_ReadRow_shorter [OF this] show ?case by simp
qed

declare validate_rows.simps [simp del]

text \<open>
  \<open>Validate\<close>. \<open>os_Open\<close> is \<open>os.Open\<close>, which the parser calls on the file
  path, and \<open>dur\<close> is the string \<open>time.Since(startTime).String()\<close> gives when the
  result is built. The result of the encoding failure is built from the fields
  \<open>File\<close>, \<open>Valid\<close>, \<open>Errors\<close> and \<open>Duration\<close>; its other fields, and the
  fields of its error other than \<open>Message\<close> and \<open>Type\<close>, have the zero value.
\<close>

definition Validate :: "'f float64 \<Rightarrow> (string \<Rightarrow> error + string) \<Rightarrow> 'f Validator \<Rightarrow> string
    \<Rightarrow> error + Results" where
  "Validate F os_Open v dur =
    (case File_NewParser os_Open (filePath v) (vdelimiter v) of
       Inl err \<Rightarrow> Inl (wrap ''failed to create parser: '' err)
     | Inr p0 \<Rightarrow>
         (case File_ValidateUTF8 p0 of
            (Some err, p1) \<Rightarrow>
              Inr \<lparr>File = filePath v, TotalRows = 0,
                   Errors = [\<lparr>LineNumber = 0, Field' = [], Message = Error_msg err, Value = [],
                              Type = ''encoding''\<rparr>],
                   Warnings = [], Duration = dur, Valid = False, SchemaUsed = False\<rparr>
          | (None, p1) \<Rightarrow>
              (case File_ReadHeaders p1 of
                 (Inl err, p2) \<Rightarrow> Inl (Errorf ''failed to read headers: '' err)
               | (Inr hs, p2) \<Rightarrow>
                   (case validate_rows F v hs p2 [] 0 of
                      Inl err \<Rightarrow> Inl err
                    | Inr (errors, totalRows, p3) \<Rightarrow>
                        Inr \<lparr>File = filePath v, TotalRows = totalRows, Errors = errors,
                             Warnings = [], Duration = dur, Valid = (errors = []),
                             SchemaUsed = (schemaValidator v \<noteq> None)\<rparr>))))"

section \<open>The loop of Validate over the records of the input\<close>

text \<open>
  \<open>pending p\<close> are the records the parser has not read yet: what its reader returns
  from now on. \<open>rows_loop\<close> is the loop of \<open>Validate\<close> written over this list;
  \<open>validate_rows_loop\<close> shows that the loop over the parser computes the same.
\<close>

definition pending :: "FileParser \<Rightarrow> csv_outcome list" where
  "pending p = csv_ReadAll (Comma (file_reader p)) (unread (file_reader p))"

definition mkrow :: "nat \<Rightarrow> string list \<Rightarrow> string list \<Rightarrow> Row" where
  "mkrow ln d hs = \<lparr>Row_LineNumber = ln, Row_Data = d, Row_Headers = hs\<rparr>"

lemma readLine_empty: "readLine [] = None"
  by (simp add: readLine_def)

lemma csv_ReadAll_empty: "csv_ReadAll c [] = []"
  by (simp add: csv_ReadAll.simps readRecord.simps readLine_empty)

lemma csv_Read_EOF:
  assumes "validDelim (Comma r)" "csv_ReadAll (Comma r) (unread r) = []"
  shows "\<exists>r'. csv_Read r = (Inl io_EOF, r')"
proof -
  from assms(2) have "fst (readRecord (Comma r) (unread r)) = None"
    by (subst (asm) csv_ReadAll.simps) (auto split: prod.splits option.splits)
  with assms(1) show ?thesis
    by (auto simp: csv_Read_def split: prod.splits)
qed

lemma csv_Read_Rec:
  assumes "validDelim (Comma r)" "csv_ReadAll (Comma r) (unread r) = Rec d # ps"
  shows "\<exists>r'. csv_Read r = (Inr d, r') \<and> Comma r' = Comma r \<and> csv_ReadAll (Comma r') (unread r') = ps"
proof -
  from assms(2) obtain rest where "readRecord (Comma r) (unread r) = (Some (Rec d), rest)"
      "csv_ReadAll (Comma r) rest = ps"
    by (subst (asm) csv_ReadAll.simps) (auto split: prod.splits option.splits)
  with assms(1) show ?thesis
    by (auto simp: csv_Read_def)
qed

lemma csv_Read_Bad:
  assumes "validDelim (Comma r)" "csv_ReadAll (Comma r) (unread r) = Bad e # ps"
  shows "\<exists>r'. csv_Read r = (Inl (CsvError e), r')"
proof -
  from assms(2) obtain rest where "readRecord (Comma r) (unread r) = (Some (Bad e), rest)"
    by (subst (asm) csv_ReadAll.simps) (auto split: prod.splits option.splits)
  with assms(1) show ?thesis
    by (auto simp: csv_Read_def)
qed

lemma File_ReadRow_EOF:
  assumes "validDelim (Comma (file_reader p))" "pending p = []"
  shows "\<exists>p'. File_ReadRow p = (Inl io_EOF, p')"
proof -
  from csv_Read_EOF [of "file_reader p"] assms obtain r' where "csv_Read (file_reader p) = (Inl io_EOF, r')"
    unfolding pending_def by blast
  then have "File_ReadRow p = (Inl io_EOF, p\<lparr>file_reader := r'\<rparr>)"
    by (simp add: File_ReadRow_def)
  then show ?thesis by (rule exI)
qed

lemma File_ReadRow_Rec:
  assumes "validDelim (Comma (file_reader p))" "pending p = Rec d # ps"
  shows "\<exists>p'. File_ReadRow p = (Inr (mkrow (file_lineNumber p + 1) d (file_headers p)), p')
     \<and> Comma (file_reader p') = Comma (file_reader p) \<and> pending p' = ps
     \<and> file_lineNumber p' = file_lineNumber p + 1 \<and> file_headers p' = file_headers p"
proof -
  from csv_Read_Rec [of "file_reader p" d ps] assms obtain r' where r':
    "csv_Read (file_reader p) = (Inr d, r')" "Comma r' = Comma (file_reader p)"
    "csv_ReadAll (Comma r') (unread r') = ps"
    unfolding pending_def by blast
  let ?p' = "p\<lparr>file_reader := r', file_lineNumber := file_lineNumber p + 1\<rparr>"
  from r'(1) have "File_ReadRow p = (Inr (mkrow (file_lineNumber p + 1) d (file_headers p)), ?p')"
    by (simp add: File_ReadRow_def mkrow_def)
  moreover from r'(2,3) have "Comma (file_reader ?p') = Comma (file_reader p)" "pending ?p' = ps"
    by (simp_all add: pending_def)
  moreover have "file_lineNumber ?p' = file_lineNumber p + 1" "file_headers ?p' = file_headers p"
    by simp_all
  ultimately show ?thesis by blast
qed

lemma File_ReadRow_Bad:
  assumes "validDelim (Comma (file_reader p))" "pending p = Bad e # ps"
  shows "\<exists>p'. File_ReadRow p =
    (Inl (Errorf (''failed to read row '' @ Sprintf_d (file_lineNumber p + 1) @ '': '') (CsvError e)), p')"
proof -
  from csv_Read_Bad [of "file_reader p" e ps] assms obtain r' where
    "csv_Read (file_reader p) = (Inl (CsvError e), r')"
    unfolding pending_def by blast
  then have "File_ReadRow p =
    (Inl (Errorf (''failed to read row '' @ Sprintf_d (file_lineNumber p + 1) @ '': '') (CsvError e)),
     p\<lparr>file_reader := r'\<rparr>)"
    by (simp add: File_ReadRow_def)
  then show ?thesis by (rule exI)
qed

fun rows_loop :: "'f float64 \<Rightarrow> 'f Validator \<Rightarrow> string list \<Rightarrow> string list \<Rightarrow> nat
    \<Rightarrow> csv_outcome list \<Rightarrow> Error list \<Rightarrow> nat \<Rightarrow> error + (Error list \<times> nat)" where
  "rows_loop F v hs ph ln [] errs n = Inr (errs, n)"
| "rows_loop F v hs ph ln (Bad e # ps) errs n =
    Inl (Errorf ''failed to read row: ''
          (Errorf (''failed to read row '' @ Sprintf_d (ln + 1) @ '': '') (CsvError e)))"
| "rows_loop F v hs ph ln (Rec d # ps) errs n =
    (case row_errors F v hs (mkrow (ln + 1) d ph) of
       Inl err \<Rightarrow> Inl err
     | Inr es \<Rightarrow>
         if failFast v \<and> errs @ es \<noteq> [] then Inr (errs @ es, n + 1)
         else rows_loop F v hs ph (ln + 1) ps (errs @ es) (n + 1))"

lemma validate_rows_loop:
  assumes "validDelim (Comma (file_reader p))"
  shows "map_sum id (\<lambda>(es, k, p'). (es, k)) (validate_rows F v hs p errs n)
       = rows_loop F v hs (file_headers p) (file_lineNumber p) (pending p) errs n"
  using assms
proof (induction "pending p" arbitrary: p errs n)
  case Nil
  from File_ReadRow_EOF [OF Nil.prems Nil.hyps [symmetric]] obtain p' where "File_ReadRow p = (Inl io_EOF, p')"
    by blast
  with Nil.hyps [symmetric] show ?case
    by (subst validate_rows.simps) simp
next
  case (Cons out ps)
  show ?case
  proof (cases out)
    case (Bad e)
    with Cons.hyps(2) have pend: "pending p = Bad e # ps" by simp
    from File_ReadRow_Bad [OF Cons.prems pend] obtain p' where
      "File_ReadRow p = (Inl (Errorf (''failed to read row '' @ Sprintf_d (file_lineNumber p + 1) @ '': '')
          (CsvError e)), p')"
      by blast
    with pend show ?thesis
      by (subst validate_rows.simps) simp
  next
    case (Rec d)
    with Cons.hyps(2) have pend: "pending p = Rec d # ps" by simp
    from File_ReadRow_Rec [OF Cons.prems pend] obtain p' where p':
      "File_ReadRow p = (Inr (mkrow (file_lineNumber p + 1) d (file_headers p)), p')"
      "Comma (file_reader p') = Comma (file_reader p)" "pending p' = ps"
      "file_lineNumber p' = file_lineNumber p + 1" "file_headers p' = file_headers p"
      by blast
    from Cons.prems p'(2) have vd: "validDelim (Comma (file_reader p'))" by simp
    note IH = Cons.hyps(1) [OF p'(3) [symmetric] vd]
    show ?thesis
      by (subst validate_rows.simps) (simp add: p' pend IH split: sum.splits)
  qed
qed

lemma structure_errors_LineNumber:
  "e \<in> set (structure_errors hs row) \<Longrightarrow> LineNumber e = Row_LineNumber row"
  by (cases "length (Row_Data row) = length hs") (simp_all add: structure_errors_def)

lemma schema_errors_LineNumber:
  "e \<in> set (schema_errors row ses) \<Longrightarrow> LineNumber e = Row_LineNumber row"
  unfolding schema_errors_def by (induction ses) auto

lemma row_errors_LineNumber:
  assumes "row_errors F v hs row = Inr es" "e \<in> set es"
  shows "LineNumber e = Row_LineNumber row"
proof (cases "schemaValidator v")
  case None
  with assms have "e \<in> set (structure_errors hs row)"
    by (simp add: row_errors_def)
  then show ?thesis by (rule structure_errors_LineNumber)
next
  case (Some sv)
  with assms(1) obtain ses where "es = structure_errors hs row @ schema_errors row ses"
    by (cases "ValidateRow F sv hs (Row_Data row)") (auto simp: row_errors_def)
  with assms(2) have "e \<in> set (structure_errors hs row) \<or> e \<in> set (schema_errors row ses)"
    by simp
  then show ?thesis
    using structure_errors_LineNumber schema_errors_LineNumber by blast
qed

lemma row_errors_failFast [simp]:
  "row_errors F (v\<lparr>failFast := b\<rparr>) hs row = row_errors F v hs row"
  by (simp add: row_errors_def)

text \<open>
  What a run of the loop that ends without an error has done: it has read the first
  \<open>length ds\<close> records, all of them rows, and added the errors of each in turn.
\<close>

lemma rows_loop_Inr:
  assumes "rows_loop F v hs ph ln ps errs n = Inr (errs', n')"
  shows "\<exists>ds ess. length ess = length ds \<and> n' = n + length ds
     \<and> take (length ds) ps = map Rec ds \<and> length ds \<le> length ps
     \<and> errs' = errs @ concat ess
     \<and> (\<forall>j < length ds. row_errors F v hs (mkrow (ln + j + 1) (ds ! j) ph) = Inr (ess ! j))
     \<and> (\<not> failFast v \<longrightarrow> length ds = length ps)
     \<and> (failFast v \<longrightarrow> (\<forall>j. Suc j < length ds \<longrightarrow> errs = [] \<and> ess ! j = []))
     \<and> (length ds < length ps \<longrightarrow> failFast v \<and> errs' \<noteq> [])"
  using assms
proof (induction ps arbitrary: ln errs n)
  case Nil
  then show ?case by simp
next
  case (Cons out ps)
  show ?case
  proof (cases out)
    case (Bad e)
    with Cons.prems show ?thesis by simp
  next
    case (Rec d)
    with Cons.prems obtain es where es: "row_errors F v hs (mkrow (ln + 1) d ph) = Inr es"
      by (cases "row_errors F v hs (mkrow (ln + 1) d ph)") auto
    show ?thesis
    proof (cases "failFast v \<and> errs @ es \<noteq> []")
      case True
      with Cons.prems Rec es have res: "errs' = errs @ es" "n' = n + 1" by auto
      have "length [es] = length [d] \<and> n' = n + length [d]
         \<and> take (length [d]) (out # ps) = map Rec [d] \<and> length [d] \<le> length (out # ps)
         \<and> errs' = errs @ concat [es]
         \<and> (\<forall>j < length [d]. row_errors F v hs (mkrow (ln + j + 1) ([d] ! j) ph) = Inr ([es] ! j))
         \<and> (\<not> failFast v \<longrightarrow> length [d] = length (out # ps))
         \<and> (failFast v \<longrightarrow> (\<forall>j. Suc j < length [d] \<longrightarrow> errs = [] \<and> [es] ! j = []))
         \<and> (length [d] < length (out # ps) \<longrightarrow> failFast v \<and> errs' \<noteq> [])"
        using True res Rec es by simp
      then show ?thesis by blast
    next
      case False
      with Cons.prems Rec es have "rows_loop F v hs ph (ln + 1) ps (errs @ es) (n + 1) = Inr (errs', n')"
        by auto
      from Cons.IH [OF this] obtain ds ess where IH:
        "length ess = length ds" "n' = n + 1 + length ds"
        "take (length ds) ps = map Rec ds" "length ds \<le> length ps"
        "errs' = (errs @ es) @ concat ess"
        "\<forall>j < length ds. row_errors F v hs (mkrow (ln + 1 + j + 1) (ds ! j) ph) = Inr (ess ! j)"
        "\<not> failFast v \<longrightarrow> length ds = length ps"
        "failFast v \<longrightarrow> (\<forall>j. Suc j < length ds \<longrightarrow> errs @ es = [] \<and> ess ! j = [])"
        "length ds < length ps \<longrightarrow> failFast v \<and> errs' \<noteq> []"
        by blast
      have rows: "\<forall>j < length (d # ds).
          row_errors F v hs (mkrow (ln + j + 1) ((d # ds) ! j) ph) = Inr ((es # ess) ! j)"
      proof (intro allI impI)
        fix j assume "j < length (d # ds)"
        then show "row_errors F v hs (mkrow (ln + j + 1) ((d # ds) ! j) ph) = Inr ((es # ess) ! j)"
          using es IH(6) by (cases j) auto
      qed
      have ff: "failFast v \<longrightarrow> (\<forall>j. Suc j < length (d # ds) \<longrightarrow> errs = [] \<and> (es # ess) ! j = [])"
      proof (intro allI impI)
        fix j assume "failFast v" "Suc j < length (d # ds)"
        with False IH(8) show "errs = [] \<and> (es # ess) ! j = []"
          by (cases j) auto
      qed
      have "length (es # ess) = length (d # ds) \<and> n' = n + length (d # ds)
         \<and> take (length (d # ds)) (out # ps) = map Rec (d # ds)
         \<and> length (d # ds) \<le> length (out # ps)
         \<and> errs' = errs @ concat (es # ess)"
        using IH(1-5) Rec by simp
      moreover have "\<not> failFast v \<longrightarrow> length (d # ds) = length (out # ps)"
        using IH(7) by simp
      moreover have "length (d # ds) < length (out # ps) \<longrightarrow> failFast v \<and> errs' \<noteq> []"
        using IH(9) by simp
      ultimately show ?thesis using rows ff by blast
    qed
  qed
qed

section \<open>The rows a run has consumed\<close>

lemma readRecord_None: "fst (readRecord c bs) = None \<Longrightarrow> snd (readRecord c bs) = []"
proof (induction c bs rule: readRecord.induct)
  case (1 c bs)
  show ?case
  proof (cases "readLine bs")
    case None
    then show ?thesis by (subst readRecord.simps) simp
  next
    case (Some lr)
    obtain line rest where lr: "lr = (line, rest)" by (cases lr)
    show ?thesis
    proof (cases "length line = lengthNL line")
      case True
      with Some lr have eq: "readRecord c bs = readRecord c rest"
        by (subst readRecord.simps) simp
      with "1.prems" "1.IH" [OF Some lr [symmetric] True] show ?thesis by simp
    next
      case False
      with Some lr have "fst (readRecord c bs) \<noteq> None"
        by (subst readRecord.simps) (simp split: prod.splits)
      with "1.prems" show ?thesis by simp
    qed
  qed
qed

lemma File_ReadRow_EOF_state:
  assumes "validDelim (Comma (file_reader p))" "pending p = []"
  shows "\<exists>p'. File_ReadRow p = (Inl io_EOF, p') \<and> file_lineNumber p' = file_lineNumber p \<and> pending p' = []"
proof -
  from assms(2) have none: "fst (readRecord (Comma (file_reader p)) (unread (file_reader p))) = None"
    unfolding pending_def
    by (subst (asm) csv_ReadAll.simps) (auto split: prod.splits option.splits)
  from readRecord_None [OF none] none
  have rr: "readRecord (Comma (file_reader p)) (unread (file_reader p)) = (None, [])"
    by (simp add: prod_eq_iff)
  let ?p' = "p\<lparr>file_reader := (file_reader p)\<lparr>unread := []\<rparr>\<rparr>"
  from assms(1) rr have "File_ReadRow p = (Inl io_EOF, ?p')"
    by (simp add: File_ReadRow_def csv_Read_def)
  moreover have "file_lineNumber ?p' = file_lineNumber p" by simp
  moreover have "pending ?p' = []"
    by (simp add: pending_def csv_ReadAll_empty)
  ultimately show ?thesis by blast
qed

text \<open>
  When the loop ends with a result, the parser has read as many records as the row
  count has grown by: its line counter has grown by that number, and the records it has
  left are the records that follow. The rows behind the one that stops a fail-fast run
  are never read.
\<close>

lemma validate_rows_consumed:
  assumes "validDelim (Comma (file_reader p))"
    and "validate_rows F v hs p errs n = Inr (errs', n', p')"
  shows "n \<le> n' \<and> file_lineNumber p' = file_lineNumber p + (n' - n)
     \<and> pending p' = drop (n' - n) (pending p)"
  using assms
proof (induction "pending p" arbitrary: p errs n)
  case Nil
  from File_ReadRow_EOF_state [OF Nil.prems(1) Nil.hyps [symmetric]] obtain q where
    q: "File_ReadRow p = (Inl io_EOF, q)" "file_lineNumber q = file_lineNumber p" "pending q = []"
    by blast
  from Nil.prems(2) q(1) have "n' = n" "p' = q"
    by (subst (asm) validate_rows.simps, simp)+
  with q Nil.hyps show ?case by simp
next
  case (Cons out ps)
  show ?case
  proof (cases out)
    case (Bad e)
    with Cons.hyps(2) have pend: "pending p = Bad e # ps" by simp
    from File_ReadRow_Bad [OF Cons.prems(1) pend] obtain q where
      "File_ReadRow p = (Inl (Errorf (''failed to read row '' @ Sprintf_d (file_lineNumber p + 1) @ '': '')
          (CsvError e)), q)"
      by blast
    with Cons.prems(2) show ?thesis
      by (subst (asm) validate_rows.simps) simp
  next
    case (Rec d)
    with Cons.hyps(2) have pend: "pending p = Rec d # ps" by simp
    from File_ReadRow_Rec [OF Cons.prems(1) pend] obtain q where q:
      "File_ReadRow p = (Inr (mkrow (file_lineNumber p + 1) d (file_headers p)), q)"
      "Comma (file_reader q) = Comma (file_reader p)" "pending q = ps"
      "file_lineNumber q = file_lineNumber p + 1" "file_headers q = file_headers p"
      by blast
    from Cons.prems(1) q(2) have vd: "validDelim (Comma (file_reader q))" by simp
    from Cons.prems(2) q(1) obtain es where
      es: "row_errors F v hs (mkrow (file_lineNumber p + 1) d (file_headers p)) = Inr es"
      by (subst (asm) validate_rows.simps)
         (cases "row_errors F v hs (mkrow (file_lineNumber p + 1) d (file_headers p))", auto)
    show ?thesis
    proof (cases "failFast v \<and> errs @ es \<noteq> []")
      case True
      with Cons.prems(2) q(1) es have "n' = n + 1" "p' = q"
        by (subst (asm) validate_rows.simps, simp)+
      with q pend show ?thesis by simp
    next
      case False
      with Cons.prems(2) q(1) es
      have "validate_rows F v hs q (errs @ es) (n + 1) = Inr (errs', n', p')"
        by (subst (asm) validate_rows.simps) auto
      from Cons.hyps(1) [OF q(3) [symmetric] vd this]
      have "n + 1 \<le> n'" "file_lineNumber p' = file_lineNumber q + (n' - (n + 1))"
        "pending p' = drop (n' - (n + 1)) (pending q)"
        by simp_all
      moreover from \<open>n + 1 \<le> n'\<close> have "n' - n = Suc (n' - (n + 1))" by simp
      ultimately show ?thesis using q(3,4) pend by simp
    qed
  qed
qed

section \<open>Validate, case by case\<close>

definition encoding_Results :: "string \<Rightarrow> string \<Rightarrow> Results" where
  "encoding_Results path dur =
    \<lparr>File = path, TotalRows = 0,
     Errors = [\<lparr>LineNumber = 0, Field' = [], Message = ''file contains invalid UTF-8 encoding'',
                Value = [], Type = ''encoding''\<rparr>],
     Warnings = [], Duration = dur, Valid = False, SchemaUsed = False\<rparr>"

definition rows_Results :: "'f Validator \<Rightarrow> string \<Rightarrow> Error list \<Rightarrow> nat \<Rightarrow> Results" where
  "rows_Results v dur errs n =
    \<lparr>File = filePath v, TotalRows = n, Errors = errs, Warnings = [], Duration = dur,
     Valid = (errs = []), SchemaUsed = (schemaValidator v \<noteq> None)\<rparr>"

lemma validDelim_comma: "validDelim (CHR '','')"
  by (simp add: validDelim_def quote_def CR_def NL_def)

lemma Validate_open_failure:
  "os_Open (filePath v) = Inl e \<Longrightarrow>
   Validate F os_Open v dur =
     Inl (Errorf ''failed to create parser: '' (Errorf ''failed to open file: '' e))"
  by (simp add: Validate_def File_NewParser_def wrap_def)

lemma Validate_no_delimiter:
  "os_Open (filePath v) = Inr bytes \<Longrightarrow> vdelimiter v = [] \<Longrightarrow>
   Validate F os_Open v dur = Inl (Panic ''runtime error: index out of range [0] with length 0'')"
  by (simp add: Validate_def File_NewParser_def wrap_def)

lemma Validate_encoding:
  "os_Open (filePath v) = Inr bytes \<Longrightarrow> vdelimiter v \<noteq> [] \<Longrightarrow> \<not> chunks_valid bytes \<Longrightarrow>
   Validate F os_Open v dur = Inr (encoding_Results (filePath v) dur)"
  by (cases "vdelimiter v")
     (simp_all add: Validate_def File_NewParser_def File_ValidateUTF8_def encoding_Results_def)

text \<open>
  After the check of the encoding the parser reads the file from its first byte with a
  new reader, whose delimiter is the comma.
\<close>

definition rewound :: "string \<Rightarrow> FileParser" where
  "rewound bytes =
    \<lparr>file_bytes = bytes, file_reader = \<lparr>Comma = CHR '','', unread = bytes\<rparr>,
     file_lineNumber = 0, file_headers = []\<rparr>"

lemma Validate_headers:
  assumes "os_Open (filePath v) = Inr bytes" "vdelimiter v \<noteq> []" "chunks_valid bytes"
  shows "Validate F os_Open v dur =
    (case File_ReadHeaders (rewound bytes) of
       (Inl err, p2) \<Rightarrow> Inl (Errorf ''failed to read headers: '' err)
     | (Inr hs, p2) \<Rightarrow>
         (case validate_rows F v hs p2 [] 0 of
            Inl err \<Rightarrow> Inl err
          | Inr (errors, totalRows, p3) \<Rightarrow> Inr (rows_Results v dur errors totalRows)))"
proof -
  from assms(2) obtain c cs where "vdelimiter v = c # cs" by (cases "vdelimiter v") auto
  with assms(1,3) show ?thesis
    unfolding rows_Results_def Validate_def rewound_def
    by (simp add: File_NewParser_def File_ValidateUTF8_def csv_NewReader_def)
qed

lemma Validate_empty:
  assumes "os_Open (filePath v) = Inr bytes" "vdelimiter v \<noteq> []" "chunks_valid bytes"
    and "csv_ReadAll (CHR '','') bytes = []"
  shows "Validate F os_Open v dur =
    Inl (Errorf ''failed to read headers: '' (Errorf ''failed to read headers: '' io_EOF))"
proof -
  from csv_Read_EOF [of "\<lparr>Comma = CHR '','', unread = bytes\<rparr>"] validDelim_comma assms(4)
  obtain r' where "csv_Read \<lparr>Comma = CHR '','', unread = bytes\<rparr> = (Inl io_EOF, r')"
    by auto
  then show ?thesis
    by (simp add: Validate_headers [where os_Open = os_Open, OF assms(1-3)] File_ReadHeaders_def rewound_def)
qed

lemma Validate_bad_header:
  assumes "os_Open (filePath v) = Inr bytes" "vdelimiter v \<noteq> []" "chunks_valid bytes"
    and "csv_ReadAll (CHR '','') bytes = Bad e # ps"
  shows "Validate F os_Open v dur =
    Inl (Errorf ''failed to read headers: '' (Errorf ''failed to read headers: '' (CsvError e)))"
proof -
  from csv_Read_Bad [of "\<lparr>Comma = CHR '','', unread = bytes\<rparr>" e ps] validDelim_comma assms(4)
  obtain r' where "csv_Read \<lparr>Comma = CHR '','', unread = bytes\<rparr> = (Inl (CsvError e), r')"
    by auto
  then show ?thesis
    by (simp add: Validate_headers [where os_Open = os_Open, OF assms(1-3)] File_ReadHeaders_def rewound_def)
qed

lemma Validate_rows:
  assumes "os_Open (filePath v) = Inr bytes" "vdelimiter v \<noteq> []" "chunks_valid bytes"
    and "csv_ReadAll (CHR '','') bytes = Rec hdr # ps"
  shows "Validate F os_Open v dur =
    (case rows_loop F v hdr hdr 1 ps [] 0 of
       Inl err \<Rightarrow> Inl err
     | Inr (errs, n) \<Rightarrow> Inr (rows_Results v dur errs n))"
proof -
  let ?p1 = "rewound bytes"
  from csv_Read_Rec [of "\<lparr>Comma = CHR '','', unread = bytes\<rparr>" hdr ps] validDelim_comma assms(4)
  obtain r' where r': "csv_Read \<lparr>Comma = CHR '','', unread = bytes\<rparr> = (Inr hdr, r')"
      "Comma r' = CHR '',''" "csv_ReadAll (Comma r') (unread r') = ps"
    by auto
  let ?p2 = "?p1\<lparr>file_reader := r', file_lineNumber := file_lineNumber ?p1 + 1,
                 file_headers := hdr\<rparr>"
  from r'(1) have rh: "File_ReadHeaders ?p1 = (Inr hdr, ?p2)"
    by (simp add: File_ReadHeaders_def rewound_def)
  have p2: "validDelim (Comma (file_reader ?p2))" "file_headers ?p2 = hdr"
      "file_lineNumber ?p2 = 1" "pending ?p2 = ps"
    using r'(2,3) validDelim_comma by (simp_all add: pending_def rewound_def)
  from validate_rows_loop [OF p2(1), of F v hdr "[]" 0]
  have link: "map_sum id (\<lambda>(es, k, p'). (es, k)) (validate_rows F v hdr ?p2 [] 0)
      = rows_loop F v hdr hdr 1 ps [] 0"
    unfolding p2(2-4) .
  show ?thesis
    unfolding Validate_headers [where os_Open = os_Open, OF assms(1-3)] rh link [symmetric]
    by (cases "validate_rows F v hdr ?p2 [] 0") auto
qed

text \<open>
  The two ways in which \<open>Validate\<close> returns a result: the encoding failure, and the
  end of the loop over the rows.
\<close>

lemma Validate_Inr:
  assumes "Validate F os_Open v dur = Inr res"
  obtains (encoding) bytes where "os_Open (filePath v) = Inr bytes" "vdelimiter v \<noteq> []"
      "\<not> chunks_valid bytes" "res = encoding_Results (filePath v) dur"
    | (rows) bytes hdr ps errs n where "os_Open (filePath v) = Inr bytes" "vdelimiter v \<noteq> []"
      "chunks_valid bytes" "csv_ReadAll (CHR '','') bytes = Rec hdr # ps"
      "rows_loop F v hdr hdr 1 ps [] 0 = Inr (errs, n)" "res = rows_Results v dur errs n"
proof (cases "os_Open (filePath v)")
  case (Inl e)
  from Validate_open_failure [where os_Open = os_Open and F = F and dur = dur, OF this] assms show ?thesis by simp
next
  case (Inr bytes)
  show ?thesis
  proof (cases "vdelimiter v = []")
    case True
    from Validate_no_delimiter [where os_Open = os_Open and F = F and dur = dur, OF Inr this] assms show ?thesis by simp
  next
    case delim: False
    show ?thesis
    proof (cases "chunks_valid bytes")
      case False
      from Validate_encoding [where os_Open = os_Open and F = F and dur = dur, OF Inr delim False] assms
      have "res = encoding_Results (filePath v) dur" by simp
      with Inr delim False show ?thesis by (rule encoding)
    next
      case True
      show ?thesis
      proof (cases "csv_ReadAll (CHR '','') bytes")
        case Nil
        from Validate_empty [where os_Open = os_Open and F = F and dur = dur, OF Inr delim True Nil] assms show ?thesis by simp
      next
        case recs: (Cons out ps)
        show ?thesis
        proof (cases out)
          case (Bad e)
          with recs have "csv_ReadAll (CHR '','') bytes = Bad e # ps" by simp
          from Validate_bad_header [where os_Open = os_Open and F = F and dur = dur, OF Inr delim True this] assms show ?thesis
            by simp
        next
          case (Rec hdr)
          with recs have r: "csv_ReadAll (CHR '','') bytes = Rec hdr # ps" by simp
          from Validate_rows [where os_Open = os_Open and F = F and dur = dur, OF Inr delim True r] assms
          obtain errs n where "rows_loop F v hdr hdr 1 ps [] 0 = Inr (errs, n)"
              "res = rows_Results v dur errs n"
            by (cases "rows_loop F v hdr hdr 1 ps [] 0") auto
          with Inr delim True r show ?thesis by (rule rows)
        qed
      qed
    qed
  qed
qed

lemma filter_concat_none:
  "(\<And>xs x. xs \<in> set xss \<Longrightarrow> x \<in> set xs \<Longrightarrow> \<not> P x) \<Longrightarrow> filter P (concat xss) = []"
  by (induction xss) (auto simp: filter_empty_conv)

lemma filter_concat_nth:
  assumes "\<And>j x. j < length xss \<Longrightarrow> x \<in> set (xss ! j) \<Longrightarrow> f x = a + j" "i < length xss"
  shows "filter (\<lambda>x. f x = a + i) (concat xss) = xss ! i"
  using assms
proof (induction xss arbitrary: a i)
  case Nil
  then show ?case by simp
next
  case (Cons xs xss)
  have hd: "f x = a" if "x \<in> set xs" for x
    using Cons.prems(1) [of 0 x] that by simp
  have tl: "f x = Suc a + j" if "j < length xss" "x \<in> set (xss ! j)" for j x
    using Cons.prems(1) [of "Suc j" x] that by simp
  show ?case
  proof (cases i)
    case 0
    have "filter (\<lambda>x. f x = a) xs = xs"
      using hd by (simp add: filter_id_conv)
    moreover have "filter (\<lambda>x. f x = a) (concat xss) = []"
    proof (rule filter_concat_none)
      fix ys x assume "ys \<in> set xss" "x \<in> set ys"
      then obtain j where "j < length xss" "ys = xss ! j"
        by (auto simp: in_set_conv_nth)
      with tl [of j x] \<open>x \<in> set ys\<close> show "\<not> f x = a" by simp
    qed
    ultimately show ?thesis using 0 by simp
  next
    case (Suc i')
    have "filter (\<lambda>x. f x = a + i) xs = []"
      using hd Suc by (auto simp: filter_empty_conv)
    moreover from Cons.IH [of "Suc a" i'] tl Cons.prems(2) Suc
    have "filter (\<lambda>x. f x = Suc a + i') (concat xss) = xss ! i'"
      by simp
    ultimately show ?thesis using Suc by simp
  qed
qed







section \<open>Concrete runs\<close>

text \<open>
  The theorems below hold for every pair of float functions. A concrete run needs one:
  \<open>digit_floats\<close> represents a \<open>float64\<close> whose value is a natural number below
  \<open>10^6\<close> by that number. On a string of decimal digits in that range
  \<open>strconv.ParseFloat\<close> returns the number exactly and \<open>%v\<close> prints it without
  an exponent; the concrete runs apply it to such strings only.
\<close>

definition digit_floats :: "nat float64" where
  "digit_floats =
    \<lparr>ParseFloat = (\<lambda>s. if s \<noteq> [] \<and> list_all is_digit s \<and> decimal s < 1000000
                        then Some (decimal s) else None),
     FormatFloat = Sprintf_d\<rparr>"

text \<open>
  The files of the concrete runs. \<open>invalid_bytes\<close> is the input of the parser's own
  test for invalid UTF-8; \<open>os.Open\<close> fails on every other path.
\<close>

definition invalid_bytes :: string where
  "invalid_bytes = ''name,email\<newline>John,john@example.com\<newline>'' @ [CHR 0xFF, CHR 0xFE, CHR 0xFD]"

definition disk :: "string \<Rightarrow> error + string" where
  "disk path =
    (if path = ''people.csv'' then Inr ''name,age\<newline>John,30\<newline>Jane''
     else if path = ''ragged.csv'' then Inr ''a,b\<newline>1\<newline>2,3\<newline>4''
     else if path = ''gapped.csv'' then Inr ''a,b\<newline>\<newline>1''
     else if path = ''semicolons.csv'' then Inr ''a;b\<newline>1;2''
     else if path = ''garbled.csv'' then Inr invalid_bytes
     else if path = ''empty.csv'' then Inr []
     else Inl (New (''open '' @ path @ '': no such file or directory'')))"

definition people :: "nat Validator" where
  "people = \<lparr>filePath = ''people.csv'', vdelimiter = '','', schemaValidator = None,
     failFast = False\<rparr>"



text \<open>
  Line numbers count records, not lines of the file: a blank line is no record for the
  CSV reader, so the row after it gets the next number.
\<close>

lemma gapped_run:
  "csv_ReadAll (CHR '','') ''a,b\<newline>\<newline>1'' = [Rec [''a'', ''b''], Rec [''1'']]
   \<and> Validate digit_floats disk
        \<lparr>filePath = ''gapped.csv'', vdelimiter = '','', schemaValidator = None, failFast = False\<rparr>
        ''1ms'' =
    Inr \<lparr>File = ''gapped.csv'', TotalRows = 1,
         Errors = [\<lparr>LineNumber = 2, Field' = ''row'',
                    Message = ''column count mismatch: expected 2, got 1'',
                    Value = [], Type = ''structure''\<rparr>],
         Warnings = [], Duration = ''1ms'', Valid = False, SchemaUsed = False\<rparr>"
  by code_simp

text \<open>
  The delimiter of the validator does not reach the rows: the reader that
  \<open>ValidateUTF8\<close> leaves behind splits at commas. A file with semicolons, read with
  the delimiter \<open>;\<close>, has one column.
\<close>

lemma semicolons_run:
  "Validate digit_floats disk
        \<lparr>filePath = ''semicolons.csv'', vdelimiter = '';'', schemaValidator = None,
         failFast = False\<rparr> ''1ms'' =
    Inr \<lparr>File = ''semicolons.csv'', TotalRows = 1, Errors = [], Warnings = [],
         Duration = ''1ms'', Valid = True, SchemaUsed = False\<rparr>
   \<and> fst (File_ReadHeaders (rewound ''a;b\<newline>1;2'')) = Inr [''a;b'']"
  by code_simp

section \<open>Structure errors (C6)\<close>



section \<open>A misaligned row under a schema (C10)\<close>

text \<open>The schema \<open>{}\<close>: it declares no property and accepts every row.\<close>

definition empty_schema :: "nat schema_Validator" where
  "empty_schema = \<lparr>schema = \<lparr>Properties = Map.empty, schema_Validate = (\<lambda>rd. Accepted)\<rparr>\<rparr>"





section \<open>Fail-fast (C2)\<close>

text \<open>
  A fail-fast run over rows: when the rows before row \<open>j0\<close> add no error and row
  \<open>j0\<close> adds some, the loop stops after row \<open>j0\<close> with the errors of that row.
\<close>

lemma rows_loop_failFast:
  assumes "failFast v" "length ess = length ds"
    and "\<forall>j < length ds. row_errors F v hs (mkrow (ln + j + 1) (ds ! j) ph) = Inr (ess ! j)"
    and "j0 < length ds" "ess ! j0 \<noteq> []" "\<forall>j < j0. ess ! j = []"
  shows "rows_loop F v hs ph ln (map Rec ds @ rest) [] n = Inr (ess ! j0, n + j0 + 1)"
  using assms(2-)
proof (induction j0 arbitrary: ds ess ln n)
  case 0
  then obtain d ds' es ess' where sh: "ds = d # ds'" "ess = es # ess'"
    by (cases ds; cases ess) auto
  from 0(2) sh have "row_errors F v hs (mkrow (ln + 1) d ph) = Inr es" by auto
  with 0(4) sh assms(1) show ?case by simp
next
  case (Suc j0)
  then obtain d ds' es ess' where sh: "ds = d # ds'" "ess = es # ess'"
    by (cases ds; cases ess) auto
  from Suc.prems(2) sh have first: "row_errors F v hs (mkrow (ln + 1) d ph) = Inr es" by auto
  from Suc.prems(5) sh have empty: "es = []" by auto
  have rows: "\<forall>j < length ds'. row_errors F v hs (mkrow (ln + 1 + j + 1) (ds' ! j) ph) = Inr (ess' ! j)"
  proof (intro allI impI)
    fix j assume "j < length ds'"
    with Suc.prems(2) sh have "row_errors F v hs (mkrow (ln + Suc j + 1) (ds ! Suc j) ph) = Inr (ess ! Suc j)"
      by (metis Suc_less_eq length_Cons)
    with sh show "row_errors F v hs (mkrow (ln + 1 + j + 1) (ds' ! j) ph) = Inr (ess' ! j)"
      by simp
  qed
  have before: "\<forall>j < j0. ess' ! j = []"
  proof (intro allI impI)
    fix j assume "j < j0"
    with Suc.prems(5) have "ess ! Suc j = []" by simp
    with sh show "ess' ! j = []" by simp
  qed
  from Suc.prems(1,3,4) sh have "length ess' = length ds'" "j0 < length ds'" "ess' ! j0 \<noteq> []"
    by simp_all
  from Suc.IH [OF this(1) rows this(2,3) before, of "n + 1"]
  show ?case using sh first empty by simp
qed

lemma concat_empty_prefix:
  "\<forall>j < k. xss ! j = [] \<Longrightarrow> k \<le> length xss \<Longrightarrow> concat xss = concat (drop k xss)"
proof (induction k arbitrary: xss)
  case 0
  then show ?case by simp
next
  case (Suc k)
  then obtain xs xss' where sh: "xss = xs # xss'" by (cases xss) auto
  from Suc.prems(1) sh have "xs = []" by auto
  moreover have "\<forall>j < k. xss' ! j = []"
  proof (intro allI impI)
    fix j assume "j < k"
    with Suc.prems(1) have "xss ! Suc j = []" by simp
    with sh show "xss' ! j = []" by simp
  qed
  moreover from Suc.prems(2) sh have "k \<le> length xss'" by simp
  ultimately show ?case using Suc.IH [of xss'] sh by simp
qed

text \<open>
  C2. When the run without fail-fast returns a result with errors on two different
  lines, the run with fail-fast returns a result too. Its errors are the errors of the
  first line that has any, which is the line of the first error and the least line
  with an error; its row count is the number of rows up to and including that line, and is
  less than the row count of the run without fail-fast.
\<close>

theorem fail_fast_first_row:
  assumes "Validate F os_Open (v\<lparr>failFast := False\<rparr>) dur = Inr res0"
    and "e1 \<in> set (Errors res0)" "e2 \<in> set (Errors res0)" "LineNumber e1 \<noteq> LineNumber e2"
  shows "\<exists>res1. Validate F os_Open (v\<lparr>failFast := True\<rparr>) dur = Inr res1
     \<and> Errors res1 = filter (\<lambda>e. LineNumber e = LineNumber (hd (Errors res0))) (Errors res0)
     \<and> list_all (\<lambda>e. LineNumber (hd (Errors res0)) \<le> LineNumber e) (Errors res0)
     \<and> TotalRows res1 + 1 = LineNumber (hd (Errors res0))
     \<and> TotalRows res1 < TotalRows res0"
  using assms(1)
proof (cases rule: Validate_Inr)
  case (encoding bytes)
  from encoding(4) obtain x where "Errors res0 = [x]"
    by (simp add: encoding_Results_def)
  with assms(2,3) have "e1 = e2" by simp
  with assms(4) have False by simp
  then show ?thesis ..
next
  case (rows bytes hdr ps errs n)
  let ?v0 = "v\<lparr>failFast := False\<rparr>" and ?v1 = "v\<lparr>failFast := True\<rparr>"
  from rows_loop_Inr [OF rows(5)] obtain ds ess where run0:
    "length ess = length ds \<and> n = 0 + length ds
     \<and> take (length ds) ps = map Rec ds \<and> length ds \<le> length ps
     \<and> errs = [] @ concat ess
     \<and> (\<forall>j < length ds. row_errors F ?v0 hdr (mkrow (1 + j + 1) (ds ! j) hdr) = Inr (ess ! j))
     \<and> (\<not> failFast ?v0 \<longrightarrow> length ds = length ps)
     \<and> (failFast ?v0 \<longrightarrow> (\<forall>j. Suc j < length ds \<longrightarrow> [] = [] \<and> ess ! j = []))
     \<and> (length ds < length ps \<longrightarrow> failFast ?v0 \<and> errs \<noteq> [])"
    by blast
  have nff: "\<not> failFast ?v0" by simp
  from run0 have run1: "length ess = length ds" by blast
  from run0 have "n = 0 + length ds" by blast
  then have run2: "n = length ds" by simp
  from run0 have run3: "take (length ds) ps = map Rec ds" by blast
  from run0 have "errs = [] @ concat ess" by blast
  then have run4: "errs = concat ess" by simp
  from run0 nff have run5: "length ds = length ps" by blast
  from run0 have run6:
    "\<forall>j < length ds. row_errors F ?v0 hdr (mkrow (1 + j + 1) (ds ! j) hdr) = Inr (ess ! j)"
    by blast
  note run = run1 run2 run3 run4 run5 run6
  have ps: "ps = map Rec ds"
  proof -
    from run(3) have "take (length ps) ps = map Rec ds" unfolding run(5) .
    then show ?thesis by simp
  qed
  have errors0: "Errors res0 = concat ess" and total0: "TotalRows res0 = length ds"
    using rows(6) run(2,4) by (simp_all add: rows_Results_def)
  have ln: "LineNumber e = 2 + j" if "j < length ess" "e \<in> set (ess ! j)" for j e
  proof -
    from that(1) run(1,6) have "row_errors F ?v0 hdr (mkrow (1 + j + 1) (ds ! j) hdr) = Inr (ess ! j)"
      by simp
    from row_errors_LineNumber [OF this that(2)] show ?thesis by (simp add: mkrow_def)
  qed
  have located: "\<exists>j < length ess. e \<in> set (ess ! j)" if "e \<in> set (Errors res0)" for e
  proof -
    from that obtain xs where xs: "xs \<in> set ess" "e \<in> set xs"
      unfolding errors0 by auto
    from xs(1) obtain j where "j < length ess" "ess ! j = xs"
      by (meson in_set_conv_nth)
    with xs(2) show ?thesis by blast
  qed
  from located [OF assms(2)] obtain j1 where j1: "j1 < length ess" "e1 \<in> set (ess ! j1)" by blast
  from located [OF assms(3)] obtain j2 where j2: "j2 < length ess" "e2 \<in> set (ess ! j2)" by blast
  from ln [OF j1] ln [OF j2] assms(4) have differ: "j1 \<noteq> j2" by auto
  define j0 where "j0 = (LEAST j. j < length ess \<and> ess ! j \<noteq> [])"
  have ex: "j1 < length ess \<and> ess ! j1 \<noteq> []" using j1 by auto
  from LeastI [of "\<lambda>j. j < length ess \<and> ess ! j \<noteq> []", OF ex]
  have j0: "j0 < length ess" "ess ! j0 \<noteq> []" unfolding j0_def by simp_all
  have least: "j0 \<le> j" if "j < length ess" "ess ! j \<noteq> []" for j
    unfolding j0_def using that by (intro Least_le) simp
  have before: "\<forall>j < j0. ess ! j = []"
    using least j0(1) by (meson leD less_trans)
  from j1(2) j2(2) have "ess ! j1 \<noteq> []" "ess ! j2 \<noteq> []" by auto
  with least j1(1) j2(1) have "j0 \<le> j1" "j0 \<le> j2" by blast+
  with differ have "j0 < j1 \<or> j0 < j2" by auto
  with j1(1) j2(1) run(1) have more: "j0 + 1 < length ds" by auto
  have rows1: "\<forall>j < length ds. row_errors F ?v1 hdr (mkrow (1 + j + 1) (ds ! j) hdr) = Inr (ess ! j)"
    using run(6) by simp
  from j0(1) run(1) have j0ds: "j0 < length ds" by simp
  from rows_loop_failFast [of ?v1 ess ds F hdr 1 hdr j0 "[]" 0, OF _ run(1) rows1 j0ds j0(2) before]
  have loop1: "rows_loop F ?v1 hdr hdr 1 ps [] 0 = Inr (ess ! j0, j0 + 1)"
    using ps by simp
  from rows(1,2) have inp1: "os_Open (filePath ?v1) = Inr bytes" "vdelimiter ?v1 \<noteq> []"
    by simp_all
  from Validate_rows [where os_Open = os_Open and F = F and dur = dur, OF inp1 rows(3,4)] loop1
  have run1: "Validate F os_Open ?v1 dur = Inr (rows_Results ?v1 dur (ess ! j0) (j0 + 1))"
    by simp
  have split: "concat ess = ess ! j0 @ concat (drop (Suc j0) ess)"
  proof -
    from concat_empty_prefix [OF before] j0(1) have "concat ess = concat (drop j0 ess)" by simp
    also from j0(1) have "drop j0 ess = ess ! j0 # drop (Suc j0) ess"
      by (simp add: Cons_nth_drop_Suc)
    finally show ?thesis by simp
  qed
  with j0(2) have "hd (Errors res0) \<in> set (ess ! j0)"
    unfolding errors0 by simp
  from ln [OF j0(1) this] have first: "LineNumber (hd (Errors res0)) = 2 + j0" .
  from filter_concat_nth [of ess LineNumber 2 j0, OF ln j0(1)]
  have flt: "filter (\<lambda>e. LineNumber e = 2 + j0) (Errors res0) = ess ! j0"
    unfolding errors0 by simp
  have minimal: "list_all (\<lambda>e. 2 + j0 \<le> LineNumber e) (Errors res0)"
    unfolding list_all_iff
  proof
    fix e assume "e \<in> set (Errors res0)"
    from located [OF this] obtain j where j: "j < length ess" "e \<in> set (ess ! j)" by blast
    then have "ess ! j \<noteq> []" by auto
    from least [OF j(1) this] ln [OF j] show "2 + j0 \<le> LineNumber e" by simp
  qed
  let ?res1 = "rows_Results ?v1 dur (ess ! j0) (j0 + 1)"
  have "Errors ?res1 = filter (\<lambda>e. LineNumber e = LineNumber (hd (Errors res0))) (Errors res0)"
    unfolding first flt by (simp add: rows_Results_def)
  moreover have "list_all (\<lambda>e. LineNumber (hd (Errors res0)) \<le> LineNumber e) (Errors res0)"
    unfolding first by (rule minimal)
  moreover have "TotalRows ?res1 + 1 = LineNumber (hd (Errors res0))"
    unfolding first by (simp add: rows_Results_def)
  moreover have "TotalRows ?res1 < TotalRows res0"
    using more total0 by (simp add: rows_Results_def)
  ultimately show ?thesis using run1 by blast
qed


definition ragged :: "nat Validator" where
  "ragged = \<lparr>filePath = ''ragged.csv'', vdelimiter = '','', schemaValidator = None,
     failFast = False\<rparr>"

definition ragged_error :: "nat \<Rightarrow> Error" where
  "ragged_error ln = \<lparr>LineNumber = ln, Field' = ''row'',
     Message = ''column count mismatch: expected 2, got 1'', Value = [], Type = ''structure''\<rparr>"

lemma ragged_run:
  "Validate digit_floats disk (ragged\<lparr>failFast := False\<rparr>) ''1ms'' =
    Inr \<lparr>File = ''ragged.csv'', TotalRows = 3, Errors = [ragged_error 2, ragged_error 4],
         Warnings = [], Duration = ''1ms'', Valid = False, SchemaUsed = False\<rparr>"
  by code_simp

lemma ragged_run_failFast:
  "Validate digit_floats disk (ragged\<lparr>failFast := True\<rparr>) ''1ms'' =
    Inr \<lparr>File = ''ragged.csv'', TotalRows = 1, Errors = [ragged_error 2],
         Warnings = [], Duration = ''1ms'', Valid = False, SchemaUsed = False\<rparr>"
  by code_simp

theorem fail_fast_first_row_witness:
  "Validate digit_floats disk (ragged\<lparr>failFast := False\<rparr>) ''1ms'' =
     Inr \<lparr>File = ''ragged.csv'', TotalRows = 3, Errors = [ragged_error 2, ragged_error 4],
          Warnings = [], Duration = ''1ms'', Valid = False, SchemaUsed = False\<rparr>
   \<and> ragged_error 2 \<in> set [ragged_error 2, ragged_error 4]
   \<and> ragged_error 4 \<in> set [ragged_error 2, ragged_error 4]
   \<and> LineNumber (ragged_error 2) \<noteq> LineNumber (ragged_error 4)
   \<and> Validate digit_floats disk (ragged\<lparr>failFast := True\<rparr>) ''1ms'' =
     Inr \<lparr>File = ''ragged.csv'', TotalRows = 1, Errors = [ragged_error 2],
          Warnings = [], Duration = ''1ms'', Valid = False, SchemaUsed = False\<rparr>
   \<and> [ragged_error 2] =
       filter (\<lambda>e. LineNumber e = LineNumber (hd [ragged_error 2, ragged_error 4]))
         [ragged_error 2, ragged_error 4]
   \<and> list_all (\<lambda>e. LineNumber (hd [ragged_error 2, ragged_error 4]) \<le> LineNumber e)
         [ragged_error 2, ragged_error 4]
   \<and> (1::nat) + 1 = LineNumber (hd [ragged_error 2, ragged_error 4])
   \<and> (1::nat) < 3"
proof -
  have mem: "ragged_error 2 \<in> set (Errors \<lparr>File = ''ragged.csv'', TotalRows = 3,
        Errors = [ragged_error 2, ragged_error 4],
        Warnings = [], Duration = ''1ms'', Valid = False, SchemaUsed = False\<rparr>)"
    "ragged_error 4 \<in> set (Errors \<lparr>File = ''ragged.csv'', TotalRows = 3,
        Errors = [ragged_error 2, ragged_error 4],
        Warnings = [], Duration = ''1ms'', Valid = False, SchemaUsed = False\<rparr>)"
    by simp_all
  have neq: "LineNumber (ragged_error 2) \<noteq> LineNumber (ragged_error 4)"
    by (simp add: ragged_error_def)
  from fail_fast_first_row [OF ragged_run mem neq]
  show ?thesis
    using ragged_run ragged_run_failFast neq by (simp add: ragged_error_def)
qed

section \<open>Invalid encoding and empty input (C1)\<close>

lemma chunks_valid_empty: "chunks_valid []"
  by (simp add: chunks_valid.simps)

definition garbled :: "nat Validator" where
  "garbled = \<lparr>filePath = ''garbled.csv'', vdelimiter = '','', schemaValidator = None,
     failFast = False\<rparr>"

definition nothing :: "nat Validator" where
  "nothing = \<lparr>filePath = ''empty.csv'', vdelimiter = '','', schemaValidator = None,
     failFast = False\<rparr>"

lemma invalid_bytes_invalid: "\<not> utf8_Valid invalid_bytes"
  by code_simp

text \<open>
  \<open>strings.Contains\<close>: whether a message holds a text.
\<close>

definition Contains :: "string \<Rightarrow> string \<Rightarrow> bool" where
  "Contains s substr = (Index s substr \<noteq> None)"

text \<open>
  What \<open>Validate\<close> does on the two inputs. When the file is not valid UTF-8, it
  returns a result and no error: the result is not valid and its only error has type
  encoding. When the file passes the check of the encoding and holds no record, as the
  empty file does, it returns no result but an error, whose message is
  \<open>failed to read headers: failed to read headers: EOF\<close>. The message
  \<open>empty input: no headers found\<close> is the error that \<open>ReadHeaders\<close> of the parser
  over an \<open>io.Reader\<close> returns on an input without a record.
\<close>

lemma encoding_failure_and_empty_file:
  assumes "os_Open (filePath v) = Inr bytes" "vdelimiter v \<noteq> []"
  shows "(\<not> utf8_Valid bytes \<longrightarrow>
       (\<exists>res. Validate F os_Open v dur = Inr res \<and> \<not> Valid res
          \<and> Errors res = [\<lparr>LineNumber = 0, Field' = [],
                Message = ''file contains invalid UTF-8 encoding'', Value = [],
                Type = ''encoding''\<rparr>]))
     \<and> (chunks_valid bytes \<and> csv_ReadAll (CHR '','') bytes = [] \<longrightarrow>
       (\<exists>err. Validate F os_Open v dur = Inl err
          \<and> Error_msg err = ''failed to read headers: failed to read headers: EOF''))
     \<and> chunks_valid [] \<and> csv_ReadAll (CHR '','') [] = []
     \<and> (validDelim c \<and> utf8_Valid bytes \<and> csv_ReadAll c bytes = [] \<longrightarrow>
       (\<exists>p0 p1. NewParser (Reader bytes None) (c # cs) = Inr p0
          \<and> ValidateUTF8 p0 = (None, p1)
          \<and> fst (ReadHeaders p1) = Inl (New ''empty input: no headers found'')))"
proof (intro conjI impI)
  assume "\<not> utf8_Valid bytes"
  with chunks_valid_sound have "\<not> chunks_valid bytes" by blast
  from Validate_encoding [where os_Open = os_Open and F = F and dur = dur, OF assms this]
  show "\<exists>res. Validate F os_Open v dur = Inr res \<and> \<not> Valid res
          \<and> Errors res = [\<lparr>LineNumber = 0, Field' = [],
                Message = ''file contains invalid UTF-8 encoding'', Value = [],
                Type = ''encoding''\<rparr>]"
    by (simp add: encoding_Results_def)
next
  assume "chunks_valid bytes \<and> csv_ReadAll (CHR '','') bytes = []"
  then have "Validate F os_Open v dur =
      Inl (Errorf ''failed to read headers: '' (Errorf ''failed to read headers: '' io_EOF))"
    using Validate_empty [where os_Open = os_Open and F = F and dur = dur, OF assms] by blast
  then show "\<exists>err. Validate F os_Open v dur = Inl err
      \<and> Error_msg err = ''failed to read headers: failed to read headers: EOF''"
    by simp
next
  show "chunks_valid []" by (rule chunks_valid_empty)
  show "csv_ReadAll (CHR '','') [] = []" by (rule csv_ReadAll_empty)
next
  assume a: "validDelim c \<and> utf8_Valid bytes \<and> csv_ReadAll c bytes = []"
  let ?p0 = "\<lparr>reader = (csv_NewReader bytes)\<lparr>Comma := c\<rparr>, lineNumber = 0, headers = [],
               buffer = bytes, delimiter = c\<rparr>"
  let ?p1 = "?p0\<lparr>reader := (csv_NewReader bytes)\<lparr>Comma := c\<rparr>\<rparr>"
  have new: "NewParser (Reader bytes None) (c # cs) = Inr ?p0"
    by (simp add: NewParser_def)
  from a have utf: "ValidateUTF8 ?p0 = (None, ?p1)"
    by (simp add: ValidateUTF8_def)
  from a csv_Read_EOF [of "\<lparr>Comma = c, unread = bytes\<rparr>"]
  obtain r' where "csv_Read \<lparr>Comma = c, unread = bytes\<rparr> = (Inl io_EOF, r')"
    by auto
  then have "fst (ReadHeaders ?p1) = Inl (New ''empty input: no headers found'')"
    by (simp add: ReadHeaders_def csv_NewReader_def)
  with new utf show "\<exists>p0 p1. NewParser (Reader bytes None) (c # cs) = Inr p0
      \<and> ValidateUTF8 p0 = (None, p1)
      \<and> fst (ReadHeaders p1) = Inl (New ''empty input: no headers found'')"
    by blast
qed

lemma garbled_run:
  "disk (filePath garbled) = Inr invalid_bytes
   \<and> Validate digit_floats disk garbled ''1ms'' =
       Inr \<lparr>File = ''garbled.csv'', TotalRows = 0,
            Errors = [\<lparr>LineNumber = 0, Field' = [],
                       Message = ''file contains invalid UTF-8 encoding'', Value = [],
                       Type = ''encoding''\<rparr>],
            Warnings = [], Duration = ''1ms'', Valid = False, SchemaUsed = False\<rparr>"
  by code_simp

text \<open>
  C1. On the empty file \<open>Validate\<close> returns no result and an error, but the error is
  the reader's \<open>io.EOF\<close> wrapped by \<open>ReadHeaders\<close> and by \<open>Validate\<close>: its
  message is \<open>failed to read headers: failed to read headers: EOF\<close> and does not
  hold the text \<open>empty input: no headers found\<close>. \<open>ReadHeaders\<close> of the parser
  over a file wraps \<open>io.EOF\<close> like every other error; \<open>ReadHeaders\<close> of the parser
  over an \<open>io.Reader\<close> returns the message on the same input.
\<close>

theorem empty_file_error_message:
  "disk (filePath nothing) = Inr []
   \<and> Validate digit_floats disk nothing ''1ms'' =
       Inl (Errorf ''failed to read headers: '' (Errorf ''failed to read headers: '' io_EOF))
   \<and> Error_msg (Errorf ''failed to read headers: '' (Errorf ''failed to read headers: '' io_EOF))
       = ''failed to read headers: failed to read headers: EOF''
   \<and> \<not> Contains ''failed to read headers: failed to read headers: EOF''
          ''empty input: no headers found''
   \<and> fst (File_ReadHeaders (rewound [])) = Inl (Errorf ''failed to read headers: '' io_EOF)
   \<and> fst (ReadHeaders
         \<lparr>reader = \<lparr>Comma = CHR '','', unread = []\<rparr>, lineNumber = 0, headers = [],
          buffer = [], delimiter = CHR '',''\<rparr>)
       = Inl (New ''empty input: no headers found'')"
  by code_simp

section \<open>The schema flag of the result (C9)\<close>

text \<open>
  On the path through the rows the flag \<open>SchemaUsed\<close> says whether a schema validator
  was supplied.
\<close>

lemma SchemaUsed_rows:
  assumes "Validate F os_Open v dur = Inr res" "os_Open (filePath v) = Inr bytes"
    and "chunks_valid bytes"
  shows "SchemaUsed res = (schemaValidator v \<noteq> None)"
  using assms(1)
proof (cases rule: Validate_Inr)
  case (encoding bytes')
  with assms(2,3) show ?thesis by simp
next
  case (rows bytes' hdr ps errs n)
  then show ?thesis by (simp add: rows_Results_def)
qed

text \<open>
  On the path of the encoding failure the result is built without the flag, which is
  then false whether or not a schema validator was supplied.
\<close>

lemma SchemaUsed_encoding:
  assumes "Validate F os_Open v dur = Inr res" "os_Open (filePath v) = Inr bytes"
    and "\<not> chunks_valid bytes"
  shows "\<not> SchemaUsed res"
  using assms(1)
proof (cases rule: Validate_Inr)
  case (encoding bytes')
  then show ?thesis by (simp add: encoding_Results_def)
next
  case (rows bytes' hdr ps errs n)
  with assms(2,3) show ?thesis by simp
qed

definition garbled_schema :: "nat Validator" where
  "garbled_schema = garbled\<lparr>schemaValidator := Some empty_schema\<rparr>"

text \<open>
  C9. An input that is not valid UTF-8, validated with a schema validator supplied:
  the result has \<open>SchemaUsed = False\<close>.
\<close>

theorem SchemaUsed_false_with_schema:
  "schemaValidator garbled_schema = Some empty_schema
   \<and> Validate digit_floats disk garbled_schema ''1ms'' =
       Inr \<lparr>File = ''garbled.csv'', TotalRows = 0,
            Errors = [\<lparr>LineNumber = 0, Field' = [],
                       Message = ''file contains invalid UTF-8 encoding'', Value = [],
                       Type = ''encoding''\<rparr>],
            Warnings = [], Duration = ''1ms'', Valid = False, SchemaUsed = False\<rparr>"
proof
  show "schemaValidator garbled_schema = Some empty_schema"
    by (simp add: garbled_schema_def)
  show "Validate digit_floats disk garbled_schema ''1ms'' =
       Inr \<lparr>File = ''garbled.csv'', TotalRows = 0,
            Errors = [\<lparr>LineNumber = 0, Field' = [],
                       Message = ''file contains invalid UTF-8 encoding'', Value = [],
                       Type = ''encoding''\<rparr>],
            Warnings = [], Duration = ''1ms'', Valid = False, SchemaUsed = False\<rparr>"
    by code_simp
qed

section \<open>Every record reaches the caller (C7)\<close>

text \<open>
  The records the parser over an \<open>io.Reader\<close> has not read yet, and what
  \<open>ReadRow\<close> does with the next of them.
\<close>

definition records_left :: "Parser \<Rightarrow> csv_outcome list" where
  "records_left p = csv_ReadAll (Comma (reader p)) (unread (reader p))"

lemma ReadRow_EOF:
  assumes "validDelim (Comma (reader p))" "records_left p = []"
  shows "\<exists>p'. ReadRow p = (Inl io_EOF, p')"
proof -
  from csv_Read_EOF [of "reader p"] assms obtain r' where "csv_Read (reader p) = (Inl io_EOF, r')"
    unfolding records_left_def by blast
  then have "ReadRow p = (Inl io_EOF, p\<lparr>reader := r'\<rparr>)"
    by (simp add: ReadRow_def)
  then show ?thesis by (rule exI)
qed

lemma ReadRow_Rec:
  assumes "validDelim (Comma (reader p))" "records_left p = Rec d # ps"
  shows "\<exists>p'. ReadRow p = (Inr (mkrow (lineNumber p + 1) d (headers p)), p')
     \<and> Comma (reader p') = Comma (reader p) \<and> records_left p' = ps
     \<and> lineNumber p' = lineNumber p + 1 \<and> headers p' = headers p"
proof -
  from csv_Read_Rec [of "reader p" d ps] assms obtain r' where r':
    "csv_Read (reader p) = (Inr d, r')" "Comma r' = Comma (reader p)"
    "csv_ReadAll (Comma r') (unread r') = ps"
    unfolding records_left_def by blast
  let ?p' = "p\<lparr>reader := r', lineNumber := lineNumber p + 1\<rparr>"
  from r'(1) have "ReadRow p = (Inr (mkrow (lineNumber p + 1) d (headers p)), ?p')"
    by (simp add: ReadRow_def mkrow_def)
  moreover from r'(2,3) have "Comma (reader ?p') = Comma (reader p)" "records_left ?p' = ps"
    by (simp_all add: records_left_def)
  moreover have "lineNumber ?p' = lineNumber p + 1" "headers ?p' = headers p"
    by simp_all
  ultimately show ?thesis by blast
qed

lemma ReadRow_Bad:
  assumes "validDelim (Comma (reader p))" "records_left p = Bad e # ps"
  shows "\<exists>p'. ReadRow p =
    (Inl (Errorf (''failed to read row '' @ Sprintf_d (lineNumber p + 1) @ '': '') (CsvError e)), p')"
proof -
  from csv_Read_Bad [of "reader p" e ps] assms obtain r' where
    "csv_Read (reader p) = (Inl (CsvError e), r')"
    unfolding records_left_def by blast
  then have "ReadRow p =
    (Inl (Errorf (''failed to read row '' @ Sprintf_d (lineNumber p + 1) @ '': '') (CsvError e)),
     p\<lparr>reader := r'\<rparr>)"
    by (simp add: ReadRow_def)
  then show ?thesis by (rule exI)
qed

text \<open>
  A caller that keeps every row it is given and reads until \<open>ReadRow\<close> returns an
  error, \<open>io.EOF\<close> or another, as the loops of the parser's tests do.
\<close>

function read_rows :: "Parser \<Rightarrow> Row list \<Rightarrow> Row list \<times> error" where
  "read_rows p rows =
    (case ReadRow p of
       (Inl err, p') \<Rightarrow> (rows, err)
     | (Inr row, p') \<Rightarrow> read_rows p' (rows @ [row]))"
  by pat_completeness auto
termination
proof (relation "measure (\<lambda>(p, rows). length (unread (reader p)))", goal_cases)
  case 1
  show ?case by simp
next
  case (2 p rows x1 p' row)
  then have "ReadRow p = (Inr row, p')" by simp
  from ReadRow_shorter [OF this] show ?case by simp
qed

declare read_rows.simps [simp del]

text \<open>
  The whole use of the parser, as in its tests: \<open>NewParser\<close>, \<open>ValidateUTF8\<close>,
  \<open>ReadHeaders\<close>, then the rows. The result is the first error up to the header, or
  the header, the rows, and the error that ends the rows.
\<close>

definition read_input :: "io_Reader \<Rightarrow> string \<Rightarrow> error + (string list \<times> Row list \<times> error)" where
  "read_input inp delim =
    (case NewParser inp delim of
       Inl err \<Rightarrow> Inl err
     | Inr p0 \<Rightarrow>
         (case ValidateUTF8 p0 of
            (Some err, p1) \<Rightarrow> Inl err
          | (None, p1) \<Rightarrow>
              (case ReadHeaders p1 of
                 (Inl err, p2) \<Rightarrow> Inl err
               | (Inr hs, p2) \<Rightarrow> Inr (hs, read_rows p2 []))))"

fun numbered :: "nat \<Rightarrow> string list \<Rightarrow> string list list \<Rightarrow> Row list" where
  "numbered ln hs [] = []"
| "numbered ln hs (d # ds) = mkrow (ln + 1) d hs # numbered (ln + 1) hs ds"

lemma read_rows_run:
  assumes "validDelim (Comma (reader p))" "records_left p = map Rec ds @ ending"
    and "ending = [] \<or> ending = Bad e # rest"
  shows "read_rows p rows =
    (rows @ numbered (lineNumber p) (headers p) ds,
     if ending = [] then io_EOF
     else Errorf (''failed to read row '' @ Sprintf_d (lineNumber p + length ds + 1) @ '': '')
            (CsvError e))"
  using assms(1,2)
proof (induction ds arbitrary: p rows)
  case Nil
  show ?case
  proof (cases "ending = []")
    case True
    with Nil have "records_left p = []" by simp
    from ReadRow_EOF [OF Nil.prems(1) this] obtain p' where "ReadRow p = (Inl io_EOF, p')"
      by blast
    with True show ?thesis by (subst read_rows.simps) simp
  next
    case False
    with assms(3) Nil have "records_left p = Bad e # rest" by simp
    from ReadRow_Bad [OF Nil.prems(1) this] obtain p' where
      "ReadRow p =
        (Inl (Errorf (''failed to read row '' @ Sprintf_d (lineNumber p + 1) @ '': '') (CsvError e)), p')"
      by blast
    with False show ?thesis by (subst read_rows.simps) simp
  qed
next
  case (Cons d ds)
  then have "records_left p = Rec d # (map Rec ds @ ending)" by simp
  from ReadRow_Rec [OF Cons.prems(1) this] obtain p' where p':
    "ReadRow p = (Inr (mkrow (lineNumber p + 1) d (headers p)), p')"
    "Comma (reader p') = Comma (reader p)" "records_left p' = map Rec ds @ ending"
    "lineNumber p' = lineNumber p + 1" "headers p' = headers p"
    by blast
  from Cons.prems(1) p'(2) have "validDelim (Comma (reader p'))" by simp
  from Cons.IH [OF this p'(3), of "rows @ [mkrow (lineNumber p + 1) d (headers p)]"]
  show ?case
    by (subst read_rows.simps) (simp add: p')
qed

text \<open>
  Every list of outcomes is a run of records followed by nothing or by a malformed
  record and what follows it.
\<close>

lemma outcomes_shape:
  "\<exists>ds ending. outs = map Rec ds @ ending \<and> (ending = [] \<or> (\<exists>e rest. ending = Bad e # rest))"
proof (induction outs)
  case Nil
  have "[] = map Rec [] @ [] \<and> ([] = [] \<or> (\<exists>e rest. [] = Bad e # rest))" by simp
  then show ?case by blast
next
  case (Cons out outs)
  then obtain ds ending where IH: "outs = map Rec ds @ ending"
      "ending = [] \<or> (\<exists>e rest. ending = Bad e # rest)"
    by blast
  show ?case
  proof (cases out)
    case (Rec d)
    with IH have "out # outs = map Rec (d # ds) @ ending" by simp
    with IH(2) show ?thesis by blast
  next
    case (Bad e)
    then have "out # outs = map Rec [] @ (Bad e # outs)" by simp
    then show ?thesis by blast
  qed
qed

text \<open>
  A record of the CSV reader has at least one field: every record the reader returns
  ends with the field it has just read.
\<close>

lemma parse_fields_nonempty:
  "fst (parseField c fs line rest) \<noteq> Rec []"
  "fst (parseQuoted c fs cur line rest) \<noteq> Rec []"
proof (induction c fs line rest and c fs cur line rest rule: parseField_parseQuoted.induct)
  case (1 c fs line rest)
  note unfold = parseField.simps [of c fs line rest]
  show ?case
  proof (cases "line = [] \<or> hd line \<noteq> quote")
    case plain: True
    show ?thesis
    proof (cases "Index line (rune_bytes c)")
      case None
      with plain show ?thesis by (subst unfold) simp
    next
      case (Some i)
      show ?thesis
      proof (cases "quote \<in> set (take i line)")
        case True
        with plain Some show ?thesis by (subst unfold) simp
      next
        case False
        from "1.IH"(1) [OF plain Some False] plain Some False show ?thesis
          by (subst unfold) simp
      qed
    qed
  next
    case quoted: False
    from "1.IH"(2) [OF quoted] quoted show ?thesis
      by (subst unfold) simp
  qed
next
  case (2 c fs cur line rest)
  note unfold = parseQuoted.simps [of c fs cur line rest]
  show ?case
  proof (cases "Index line [quote]")
    case None
    show ?thesis
    proof (cases "line = []")
      case True
      with None show ?thesis by (subst unfold) simp
    next
      case False
      show ?thesis
      proof (cases "readLine rest")
        case eof: None
        from "2.IH"(1) [OF None False eof] None False eof show ?thesis
          by (subst unfold) simp
      next
        case (Some lr)
        obtain l r where lr: "lr = (l, r)" by (cases lr)
        from "2.IH"(2) [OF None False Some lr [symmetric]] None False Some lr show ?thesis
          by (subst unfold) simp
      qed
    qed
  next
    case (Some i)
    show ?thesis
    proof (cases "HasPrefix (drop (i + 1) line) [quote]")
      case True
      from "2.IH"(3) [OF Some True] Some True show ?thesis
        by (subst unfold) simp
    next
      case nq: False
      show ?thesis
      proof (cases "HasPrefix (drop (i + 1) line) (rune_bytes c)")
        case True
        from "2.IH"(4) [OF Some nq True] Some nq True show ?thesis
          by (subst unfold) simp
      next
        case False
        with Some nq show ?thesis by (subst unfold) simp
      qed
    qed
  qed
qed

lemma readRecord_nonempty: "fst (readRecord c bs) \<noteq> Some (Rec [])"
proof (induction c bs rule: readRecord.induct)
  case (1 c bs)
  show ?case
  proof (cases "readLine bs")
    case None
    then show ?thesis by (subst readRecord.simps) simp
  next
    case (Some lr)
    obtain line rest where lr: "lr = (line, rest)" by (cases lr)
    show ?thesis
    proof (cases "length line = lengthNL line")
      case True
      with Some lr "1.IH" [OF Some lr [symmetric] True] show ?thesis
        by (subst readRecord.simps) simp
    next
      case False
      obtain out rest' where pf: "parseField c [] line rest = (out, rest')"
        by (cases "parseField c [] line rest")
      with parse_fields_nonempty(1) [of c "[]" line rest] have "out \<noteq> Rec []" by simp
      with False Some lr pf show ?thesis
        by (subst readRecord.simps) simp
    qed
  qed
qed

lemma csv_ReadAll_nonempty: "Rec [] \<notin> set (csv_ReadAll c bs)"
proof (induction c bs rule: csv_ReadAll.induct)
  case (1 c bs)
  show ?case
  proof (cases "readRecord c bs")
    case (Pair out rest)
    show ?thesis
    proof (cases out)
      case None
      with Pair show ?thesis by (subst csv_ReadAll.simps) simp
    next
      case (Some o1)
      with Pair readRecord_nonempty [of c bs] have "o1 \<noteq> Rec []" by simp
      with Pair Some "1.IH" [OF Pair [symmetric] Some] show ?thesis
        by (subst csv_ReadAll.simps) simp
    qed
  qed
qed

text \<open>
  A blank line is no record: where the reader starts a record at a newline, or at a
  carriage return and a newline, it goes on to the next line.
\<close>

lemma blank_line_skipped:
  "csv_ReadAll c (NL # bs) = csv_ReadAll c bs"
  "csv_ReadAll c (CR # NL # bs) = csv_ReadAll c bs"
proof -
  have "readLine (NL # bs) = Some ([NL], bs)"
    by (simp add: readLine_def)
  then have "readRecord c (NL # bs) = readRecord c bs"
    by (subst readRecord.simps) (simp add: lengthNL_def)
  then show "csv_ReadAll c (NL # bs) = csv_ReadAll c bs"
    by (subst csv_ReadAll.simps, subst (2) csv_ReadAll.simps) simp
  have "readLine (CR # NL # bs) = Some ([NL], bs)"
    by (simp add: readLine_def NL_def CR_def)
  then have "readRecord c (CR # NL # bs) = readRecord c bs"
    by (subst readRecord.simps) (simp add: lengthNL_def)
  then show "csv_ReadAll c (CR # NL # bs) = csv_ReadAll c bs"
    by (subst csv_ReadAll.simps, subst (2) csv_ReadAll.simps) simp
qed

text \<open>\<open>IsEmpty\<close> holds of a row exactly when each of its fields is the empty string.\<close>

lemma IsEmpty_iff: "IsEmpty r = list_all (\<lambda>field. field = []) (Row_Data r)"
proof (cases "Row_Data r")
  case Nil
  then show ?thesis by (simp add: IsEmpty_def)
next
  case (Cons d ds)
  then show ?thesis by (cases ds) (auto simp: IsEmpty_def)
qed

text \<open>
  The lines of an input, cut as the reader cuts them: at each newline, without the
  newline and the carriage return before it.
\<close>

function input_lines :: "string \<Rightarrow> string list" where
  "input_lines bs =
    (case readLine bs of
       None \<Rightarrow> []
     | Some (line, rest) \<Rightarrow> take (length line - lengthNL line) line # input_lines rest)"
  by pat_completeness auto
termination
proof (relation "measure length", goal_cases)
  case 1
  show ?case by simp
next
  case (2 bs x2 line rest)
  then have "readLine bs = Some (line, rest)" by simp
  from readLine_length(2) [OF this] show ?case by simp
qed

declare input_lines.simps [simp del]

text \<open>
  For an input without quotes the records can be read off the lines: each line that
  is not blank is a record, and its fields are the pieces between the delimiters.
  \<open>split_at\<close> is \<open>strings.Split\<close> for a separator of one byte.
\<close>

function split_at :: "char \<Rightarrow> string \<Rightarrow> string list" where
  "split_at c s =
    (if c \<in> set s
     then takeWhile (\<lambda>x. x \<noteq> c) s # split_at c (tl (dropWhile (\<lambda>x. x \<noteq> c) s))
     else [s])"
  by pat_completeness auto
termination
proof (relation "measure (\<lambda>(c, s). length s)", goal_cases)
  case 1
  show ?case by simp
next
  case (2 c s)
  then have "dropWhile (\<lambda>x. x \<noteq> c) s \<noteq> []" by simp
  then have "length (tl (dropWhile (\<lambda>x. x \<noteq> c) s)) < length (dropWhile (\<lambda>x. x \<noteq> c) s)"
    by simp
  also have "\<dots> \<le> length s" by (rule length_dropWhile_le)
  finally show ?case by simp
qed

declare split_at.simps [simp del]

lemma Index_single:
  "Index xs [c] = (if c \<in> set xs then Some (length (takeWhile (\<lambda>x. x \<noteq> c) xs)) else None)"
  by (induction xs) (auto simp: HasPrefix_def)

lemma parseField_plain:
  assumes "(of_char c :: nat) < 0x80" "c \<noteq> NL" "c \<noteq> quote"
    and "quote \<notin> set l" "NL \<notin> set l" "e = [] \<or> e = [NL]"
  shows "parseField c fs (l @ e) rest = (Rec (fs @ split_at c l), rest)"
  using assms(4,5)
proof (induction "length l" arbitrary: l fs rule: less_induct)
  case less
  from assms(1) have rb: "rune_bytes c = [c]" by (simp add: rune_bytes_def)
  from less.prems assms(6) have hd: "l @ e = [] \<or> hd (l @ e) \<noteq> quote"
    by (cases l) (auto simp: NL_def quote_def)
  from assms(2,6) have mem: "c \<in> set (l @ e) \<longleftrightarrow> c \<in> set l" by auto
  from less.prems(2) assms(6) have strip: "take (length (l @ e) - lengthNL (l @ e)) (l @ e) = l"
    by (cases l rule: rev_cases) (auto simp: lengthNL_def)
  show ?case
  proof (cases "c \<in> set l")
    case False
    with mem have "Index (l @ e) (rune_bytes c) = None" by (simp add: rb Index_single)
    with hd less.prems(1) strip False show ?thesis
      by (subst parseField.simps) (simp add: split_at.simps)
  next
    case True
    let ?f = "takeWhile (\<lambda>x. x \<noteq> c) l" and ?r = "tl (dropWhile (\<lambda>x. x \<noteq> c) l)"
    from True have tw: "takeWhile (\<lambda>x. x \<noteq> c) (l @ e) = ?f"
      by (simp add: takeWhile_append1)
    from True mem have idx: "Index (l @ e) (rune_bytes c) = Some (length ?f)"
      by (simp add: rb Index_single tw)
    have take: "take (length ?f) (l @ e) = ?f"
      by (metis tw takeWhile_eq_take)
    from True have dw: "dropWhile (\<lambda>x. x \<noteq> c) l \<noteq> []" by simp
    have "drop (length ?f) l = dropWhile (\<lambda>x. x \<noteq> c) l"
      by (metis dropWhile_eq_drop)
    with dw have "drop (Suc (length ?f)) l = ?r"
      by (metis drop_Suc tl_drop)
    moreover from dw have "Suc (length ?f) \<le> length l"
      by (metis Suc_leI \<open>drop (length ?f) l = dropWhile (\<lambda>x. x \<noteq> c) l\<close> drop_eq_Nil not_le)
    ultimately have drop: "drop (length ?f + length (rune_bytes c)) (l @ e) = ?r @ e"
      by (simp add: rb)
    have sub: "set ?f \<subseteq> set l" "set ?r \<subseteq> set l"
      using set_takeWhileD apply fastforce
      by (metis dw list.set_sel(2) set_dropWhileD subsetI)
    with less.prems have clean: "quote \<notin> set ?f" "quote \<notin> set ?r" "NL \<notin> set ?r"
      by auto
    from dw have "length ?r < length l"
      by (metis length_dropWhile_le length_tl diff_less le_trans length_greater_0_conv
          less_le_trans less_one not_le)
    from less.hyps [OF this clean(2,3), of "fs @ [?f]"]
    have IH: "parseField c (fs @ [?f]) (?r @ e) rest = (Rec (fs @ [?f] @ split_at c ?r), rest)"
      by simp
    from True have "split_at c l = ?f # split_at c ?r"
      by (subst split_at.simps) simp
    with hd idx take drop clean(1) IH show ?thesis
      by (subst parseField.simps) simp
  qed
qed

lemma readLine_shape:
  assumes "readLine bs = Some (line, rest)"
  shows "\<exists>l e. line = l @ e \<and> (e = [] \<or> e = [NL]) \<and> NL \<notin> set l
     \<and> set l \<subseteq> set bs \<and> set rest \<subseteq> set bs"
proof -
  define tw where "tw = takeWhile (\<lambda>c. c \<noteq> NL) bs"
  define dw where "dw = dropWhile (\<lambda>c. c \<noteq> NL) bs"
  define l where "l = (if tw \<noteq> [] \<and> last tw = CR then butlast tw else tw)"
  have ne: "bs \<noteq> []" using assms by (auto simp: readLine_def)
  have eq: "(line, rest) = (if dw = [] then (l, []) else (l @ [NL], tl dw))"
    using assms ne unfolding readLine_def tw_def dw_def l_def Let_def
    by (auto split: if_splits)
  have "set l \<subseteq> set tw"
    unfolding l_def by (auto dest: in_set_butlastD)
  moreover have "set tw \<subseteq> set bs" "NL \<notin> set tw"
    unfolding tw_def by (auto dest: set_takeWhileD)
  ultimately have l: "set l \<subseteq> set bs" "NL \<notin> set l" by auto
  have "set (tl dw) \<subseteq> set bs"
    unfolding dw_def by (metis list.set_sel(2) set_dropWhileD subsetI tl_Nil)
  with eq l show ?thesis
    by (cases "dw = []") auto
qed

text \<open>
  The records of an input, line by line: a blank line is passed over, and a line
  without quotes is split at the delimiters.
\<close>

lemma csv_ReadAll_blank:
  assumes "readLine bs = Some (line, rest)" "length line = lengthNL line"
  shows "csv_ReadAll c bs = csv_ReadAll c rest"
proof -
  from assms have "readRecord c bs = readRecord c rest"
    by (subst readRecord.simps) simp
  then show ?thesis
    by (subst csv_ReadAll.simps, subst (2) csv_ReadAll.simps) simp
qed

lemma csv_ReadAll_plain_line:
  assumes "(of_char c :: nat) < 0x80" "validDelim c" "quote \<notin> set bs"
    and "readLine bs = Some (line, rest)" "length line \<noteq> lengthNL line"
  shows "csv_ReadAll c bs
    = Rec (split_at c (take (length line - lengthNL line) line)) # csv_ReadAll c rest"
proof -
  from readLine_shape [OF assms(4)] obtain l e where sh:
    "line = l @ e" "e = [] \<or> e = [NL]" "NL \<notin> set l" "set l \<subseteq> set bs"
    by blast
  from sh(1-3) have strip: "take (length line - lengthNL line) line = l"
    by (cases l rule: rev_cases) (auto simp: lengthNL_def)
  from assms(2) have c: "c \<noteq> NL" "c \<noteq> quote" by (simp_all add: validDelim_def)
  from sh(4) assms(3) have "quote \<notin> set l" by auto
  from parseField_plain [OF assms(1) c this sh(3,2), of "[]" rest] sh(1)
  have "parseField c [] line rest = (Rec (split_at c l), rest)" by simp
  with assms(4,5) have "readRecord c bs = (Some (Rec (split_at c l)), rest)"
    by (subst readRecord.simps) simp
  then show ?thesis
    unfolding strip by (subst csv_ReadAll.simps) simp
qed

lemma plain_records:
  assumes "(of_char c :: nat) < 0x80" "validDelim c" "quote \<notin> set bs"
  shows "csv_ReadAll c bs
    = map (\<lambda>line. Rec (split_at c line)) (filter (\<lambda>line. line \<noteq> []) (input_lines bs))"
  using assms(3)
proof (induction bs rule: input_lines.induct)
  case (1 bs)
  show ?case
  proof (cases "readLine bs")
    case None
    then have "bs = []" by (auto simp: readLine_def Let_def split: if_splits)
    with None show ?thesis
      by (subst input_lines.simps) (simp add: csv_ReadAll_empty)
  next
    case (Some lr)
    obtain line rest where lr: "lr = (line, rest)" by (cases lr)
    with Some have rl: "readLine bs = Some (line, rest)" by simp
    from readLine_shape [OF rl] obtain l e where sh:
      "line = l @ e" "e = [] \<or> e = [NL]" "NL \<notin> set l" "set rest \<subseteq> set bs"
      by blast
    from sh(1-3) have strip: "take (length line - lengthNL line) line = l"
      by (cases l rule: rev_cases) (auto simp: lengthNL_def)
    from sh(1-3) have blank: "length line = lengthNL line \<longleftrightarrow> l = []"
      by (cases l rule: rev_cases) (auto simp: lengthNL_def)
    from sh(4) "1.prems" have "quote \<notin> set rest" by auto
    from "1.IH" [OF rl refl this]
    have IH: "csv_ReadAll c rest
      = map (\<lambda>line. Rec (split_at c line)) (filter (\<lambda>line. line \<noteq> []) (input_lines rest))" .
    have lines: "input_lines bs = l # input_lines rest"
      using rl strip by (subst input_lines.simps) simp
    show ?thesis
    proof (cases "l = []")
      case True
      with blank csv_ReadAll_blank [OF rl] IH lines show ?thesis by simp
    next
      case False
      with blank csv_ReadAll_plain_line [OF assms(1,2) "1.prems" rl] strip IH lines
      show ?thesis by simp
    qed
  qed
qed

lemma numbered_Data: "map Row_Data (numbered k hs ds) = ds"
  by (induction ds arbitrary: k) (simp_all add: mkrow_def)

lemma numbered_Headers: "list_all (\<lambda>row. Row_Headers row = hs) (numbered k hs ds)"
  by (induction ds arbitrary: k) (simp_all add: mkrow_def)

lemma numbered_LineNumber:
  "map Row_LineNumber (numbered k hs ds) = map (\<lambda>j. k + j + 1) [0 ..< length ds]"
proof (induction ds arbitrary: k)
  case Nil
  show ?case by simp
next
  case (Cons d ds)
  have "map (\<lambda>j. k + j + 1) [0 ..< length (d # ds)]
      = (k + 1) # map (\<lambda>j. k + j + 1) (map Suc [0 ..< length ds])"
    by (simp add: upt_conv_Cons map_Suc_upt del: upt_Suc)
  also have "\<dots> = (k + 1) # map (\<lambda>j. (k + 1) + j + 1) [0 ..< length ds]"
    by simp
  finally show ?case using Cons.IH [of "k + 1"] by (simp add: mkrow_def)
qed

lemma numbered_nonempty:
  "[] \<notin> set ds \<Longrightarrow> list_all (\<lambda>row. Row_Data row \<noteq> []) (numbered k hs ds)"
  by (induction ds arbitrary: k) (auto simp: mkrow_def)

text \<open>The input of the parser's test \<open>TestParserWithEmptyRows\<close>.\<close>

definition blanks :: string where
  "blanks = ''name,email\<newline>John,john@example.com\<newline>\<newline>\<newline>Jane,jane@example.com\<newline>\<newline>''"

text \<open>
  C7, as stated, fails: of the six lines of this input three are blank, and the reader
  gives the caller no row for any of them. After the header the caller gets two rows,
  numbered 2 and 3, and \<open>IsEmpty\<close> holds of neither.
\<close>

theorem blank_lines_counterexample:
  "input_lines blanks =
     [''name,email'', ''John,john@example.com'', [], [], ''Jane,jane@example.com'', []]
   \<and> read_input (Reader blanks None) '','' =
       Inr ([''name'', ''email''],
            [mkrow 2 [''John'', ''john@example.com''] [''name'', ''email''],
             mkrow 3 [''Jane'', ''jane@example.com''] [''name'', ''email'']],
            io_EOF)
   \<and> map IsEmpty [mkrow 2 [''John'', ''john@example.com''] [''name'', ''email''],
                   mkrow 3 [''Jane'', ''jane@example.com''] [''name'', ''email'']]
       = [False, False]"
  by code_simp

text \<open>
  C7, amended. The reader gives the caller every record that the CSV reader finds in
  the input, in the order of the input, and leaves none out: after the header the
  caller gets one row for each record up to the end of the input or the first
  malformed record, with the record's fields unchanged, the headers, and the line
  numbers 2, 3, and so on. A record whose fields are all empty is a row like any
  other, and \<open>IsEmpty\<close> holds of exactly these rows. Every row has at least one
  field: a blank line is no record for the CSV reader, so it is never a row. For an
  input without quotes and a delimiter of one byte, the records are the lines of the
  input that are not blank, each split at the delimiters.
\<close>

theorem reader_surfaces_every_record:
  assumes "validDelim c" "utf8_Valid bytes"
    and "csv_ReadAll c bytes = Rec hdr # map Rec ds @ ending"
    and "ending = [] \<or> ending = Bad e # rest"
  shows "\<exists>rows err. read_input (Reader bytes None) (c # cs) = Inr (hdr, rows, err)
     \<and> map Row_Data rows = ds
     \<and> map Row_LineNumber rows = map (\<lambda>j. j + 2) [0 ..< length ds]
     \<and> list_all (\<lambda>row. Row_Headers row = hdr) rows
     \<and> list_all (\<lambda>row. Row_Data row \<noteq> []) rows
     \<and> list_all (\<lambda>row. IsEmpty row = list_all (\<lambda>field. field = []) (Row_Data row)) rows
     \<and> err = (if ending = [] then io_EOF
              else Errorf (''failed to read row '' @ Sprintf_d (length ds + 2) @ '': '')
                     (CsvError e))
     \<and> (quote \<notin> set bytes \<and> (of_char c :: nat) < 0x80 \<longrightarrow>
          csv_ReadAll c bytes
            = map (\<lambda>line. Rec (split_at c line))
                (filter (\<lambda>line. line \<noteq> []) (input_lines bytes)))"
proof -
  let ?p0 = "\<lparr>reader = (csv_NewReader bytes)\<lparr>Comma := c\<rparr>, lineNumber = 0, headers = [],
               buffer = bytes, delimiter = c\<rparr>"
  let ?p1 = "?p0\<lparr>reader := (csv_NewReader bytes)\<lparr>Comma := c\<rparr>\<rparr>"
  have new: "NewParser (Reader bytes None) (c # cs) = Inr ?p0"
    by (simp add: NewParser_def)
  from assms(2) have utf: "ValidateUTF8 ?p0 = (None, ?p1)"
    by (simp add: ValidateUTF8_def)
  from csv_Read_Rec [of "\<lparr>Comma = c, unread = bytes\<rparr>" hdr "map Rec ds @ ending"] assms(1,3)
  obtain r' where r': "csv_Read \<lparr>Comma = c, unread = bytes\<rparr> = (Inr hdr, r')"
      "Comma r' = c" "csv_ReadAll (Comma r') (unread r') = map Rec ds @ ending"
    by auto
  let ?p2 = "?p1\<lparr>reader := r', lineNumber := lineNumber ?p1 + 1, headers := hdr\<rparr>"
  from r'(1) have rh: "ReadHeaders ?p1 = (Inr hdr, ?p2)"
    by (simp add: ReadHeaders_def csv_NewReader_def)
  have p2: "validDelim (Comma (reader ?p2))" "records_left ?p2 = map Rec ds @ ending"
      "lineNumber ?p2 = 1" "headers ?p2 = hdr"
    using r'(2,3) assms(1) by (simp_all add: records_left_def)
  let ?rows = "numbered 1 hdr ds"
  let ?err = "if ending = [] then io_EOF
      else Errorf (''failed to read row '' @ Sprintf_d (length ds + 2) @ '': '') (CsvError e)"
  from read_rows_run [OF p2(1,2) assms(4), of "[]"]
  have "read_rows ?p2 [] = (?rows, ?err)"
    unfolding p2(3,4) by (simp add: add.commute)
  with new utf rh have run: "read_input (Reader bytes None) (c # cs) = Inr (hdr, ?rows, ?err)"
    by (simp add: read_input_def)
  have "[] \<notin> set ds"
  proof
    assume "[] \<in> set ds"
    with assms(3) have "Rec [] \<in> set (csv_ReadAll c bytes)" by auto
    with csv_ReadAll_nonempty show False by blast
  qed
  then have fields: "list_all (\<lambda>row. Row_Data row \<noteq> []) ?rows"
    by (rule numbered_nonempty)
  have empty: "list_all (\<lambda>row. IsEmpty row = list_all (\<lambda>field. field = []) (Row_Data row)) ?rows"
    by (simp add: list_all_iff IsEmpty_iff)
  have lines: "map Row_LineNumber ?rows = map (\<lambda>j. j + 2) [0 ..< length ds]"
    by (simp add: numbered_LineNumber)
  have plain: "quote \<notin> set bytes \<and> (of_char c :: nat) < 0x80 \<longrightarrow>
      csv_ReadAll c bytes
        = map (\<lambda>line. Rec (split_at c line)) (filter (\<lambda>line. line \<noteq> []) (input_lines bytes))"
    using plain_records [OF _ assms(1)] by blast
  from run numbered_Data [of 1 hdr ds] lines numbered_Headers [of hdr 1 ds] fields empty plain
  show ?thesis by blast
qed

text \<open>
  An input whose second line is the record of one empty field, whose third line is
  blank, and whose last record breaks off inside a quoted field.
\<close>

definition sparse :: string where
  "sparse = [CHR ''a'', NL, quote, quote, NL, NL, CHR ''x'', NL, quote, CHR ''y'']"

theorem reader_surfaces_every_record_witness:
  "validDelim (CHR '','') \<and> utf8_Valid sparse
   \<and> csv_ReadAll (CHR '','') sparse = Rec [''a''] # map Rec [[[]], [''x'']] @ [Bad ErrQuote]
   \<and> input_lines sparse = [''a'', [quote, quote], [], ''x'', [quote, CHR ''y'']]
   \<and> read_input (Reader sparse None) '','' =
       Inr ([''a''], [mkrow 2 [[]] [''a''], mkrow 3 [''x''] [''a'']],
            Errorf ''failed to read row 4: '' (CsvError ErrQuote))
   \<and> map IsEmpty [mkrow 2 [[]] [''a''], mkrow 3 [''x''] [''a'']] = [True, False]
   \<and> utf8_Valid blanks \<and> quote \<notin> set blanks \<and> (of_char (CHR '','') :: nat) < 0x80
   \<and> csv_ReadAll (CHR '','') blanks =
       Rec [''name'', ''email'']
       # map Rec [[''John'', ''john@example.com''], [''Jane'', ''jane@example.com'']] @ []
   \<and> map (\<lambda>line. Rec (split_at (CHR '','') line))
         (filter (\<lambda>line. line \<noteq> []) (input_lines blanks)) =
       [Rec [''name'', ''email''], Rec [''John'', ''john@example.com''],
        Rec [''Jane'', ''jane@example.com'']]"
proof -
  have utf: "utf8_Valid sparse"
    by code_simp
  have recs: "csv_ReadAll (CHR '','') sparse = Rec [''a''] # map Rec [[[]], [''x'']] @ [Bad ErrQuote]"
    by code_simp
  have ending: "[Bad ErrQuote] = [] \<or> [Bad ErrQuote] = Bad ErrQuote # []"
    by simp
  have lines: "input_lines sparse = [''a'', [quote, quote], [], ''x'', [quote, CHR ''y'']]"
    by code_simp
  have run: "read_input (Reader sparse None) '','' =
       Inr ([''a''], [mkrow 2 [[]] [''a''], mkrow 3 [''x''] [''a'']],
            Errorf ''failed to read row 4: '' (CsvError ErrQuote))"
    by code_simp
  have empty: "map IsEmpty [mkrow 2 [[]] [''a''], mkrow 3 [''x''] [''a'']] = [True, False]"
    by code_simp
  have utf': "utf8_Valid blanks"
    by code_simp
  have plain: "quote \<notin> set blanks" "(of_char (CHR '','') :: nat) < 0x80"
    by code_simp+
  have recs': "csv_ReadAll (CHR '','') blanks =
       Rec [''name'', ''email'']
       # map Rec [[''John'', ''john@example.com''], [''Jane'', ''jane@example.com'']] @ []"
    by code_simp
  have ending': "([] :: csv_outcome list) = [] \<or> [] = Bad ErrQuote # []"
    by simp
  have split: "map (\<lambda>line. Rec (split_at (CHR '','') line))
         (filter (\<lambda>line. line \<noteq> []) (input_lines blanks)) =
       [Rec [''name'', ''email''], Rec [''John'', ''john@example.com''],
        Rec [''Jane'', ''jane@example.com'']]"
    by code_simp
  from reader_surfaces_every_record [OF validDelim_comma utf recs ending, of "[]"]
    reader_surfaces_every_record [OF validDelim_comma utf' recs' ending', of "[]"]
  show ?thesis
    using validDelim_comma utf recs lines run empty utf' plain recs' split by simp
qed

section \<open>The order of the conversions (C3)\<close>

text \<open>
  The conversion as the specification words it: a fixed order, \<open>integer\<close> first, then
  \<open>number\<close>, then the raw string, whatever the order of the declared types.
\<close>

definition convert_fixed_order :: "'f float64 \<Rightarrow> string list \<Rightarrow> string \<Rightarrow> 'f Any" where
  "convert_fixed_order F types d =
    (case (if ''integer'' \<in> set types then Atoi d else None) of
       Some v \<Rightarrow> AnyInt v
     | None \<Rightarrow>
         (case (if ''number'' \<in> set types then ParseFloat F d else None) of
            Some x \<Rightarrow> AnyFloat x
          | None \<Rightarrow> AnyString d))"

text \<open>A type of the list converts the string.\<close>

definition converts :: "'f float64 \<Rightarrow> string \<Rightarrow> string \<Rightarrow> bool" where
  "converts F d t =
    (t = ''integer'' \<and> Atoi d \<noteq> None \<or> t = ''number'' \<and> ParseFloat F d \<noteq> None)"

lemma convert_find:
  "convert F types d =
    (case find (converts F d) types of
       None \<Rightarrow> AnyString d
     | Some t \<Rightarrow> if t = ''integer'' then AnyInt (the (Atoi d)) else AnyFloat (the (ParseFloat F d)))"
  by (induction types) (auto simp: converts_def split: option.splits)

lemma convert_no_type:
  "''integer'' \<notin> set types \<Longrightarrow> ''number'' \<notin> set types \<Longrightarrow> convert F types d = AnyString d"
  by (induction types) auto

lemma convert_no_integer:
  "''integer'' \<notin> set types \<Longrightarrow> convert F types d = convert_fixed_order F types d"
proof (induction types)
  case Nil
  show ?case by (simp add: convert_fixed_order_def)
next
  case (Cons t ts)
  then have IH: "convert F ts d = convert_fixed_order F ts d" and t: "t \<noteq> ''integer''"
    by auto
  show ?case
  proof (cases "t = ''number''")
    case True
    with t IH Cons.prems show ?thesis
      by (cases "ParseFloat F d") (auto simp: convert_fixed_order_def split: option.splits)
  next
    case False
    with t IH Cons.prems show ?thesis
      by (auto simp: convert_fixed_order_def split: option.splits)
  qed
qed

lemma convert_fixed_order_Cons_integer:
  "convert_fixed_order F (''integer'' # ts) d =
    (case Atoi d of Some v \<Rightarrow> AnyInt v
     | None \<Rightarrow> (case (if ''number'' \<in> set ts then ParseFloat F d else None) of
          Some x \<Rightarrow> AnyFloat x | None \<Rightarrow> AnyString d))"
  by (simp add: convert_fixed_order_def)

lemma convert_after_failed_integer:
  "Atoi d = None \<Longrightarrow>
   convert F ts d =
     (case (if ''number'' \<in> set ts then ParseFloat F d else None) of
        Some x \<Rightarrow> AnyFloat x | None \<Rightarrow> AnyString d)"
  by (induction ts) (auto split: option.splits)

lemma convert_integer_first:
  "''number'' \<notin> set (takeWhile (\<lambda>t. t \<noteq> ''integer'') types) \<Longrightarrow>
   convert F types d = convert_fixed_order F types d"
proof (induction types)
  case Nil
  show ?case by (simp add: convert_fixed_order_def)
next
  case (Cons t ts)
  show ?case
  proof (cases "t = ''integer''")
    case True
    show ?thesis
    proof (cases "Atoi d")
      case None
      with True convert_after_failed_integer [OF None, of F ts] show ?thesis
        by (simp add: convert_fixed_order_Cons_integer)
    next
      case (Some v)
      with True show ?thesis by (simp add: convert_fixed_order_Cons_integer)
    qed
  next
    case False
    with Cons.prems have nn: "t \<noteq> ''number''" and rest: "''number'' \<notin> set (takeWhile (\<lambda>t. t \<noteq> ''integer'') ts)"
      by auto
    from False nn have "convert F (t # ts) d = convert F ts d" by simp
    moreover from False nn have "convert_fixed_order F (t # ts) d = convert_fixed_order F ts d"
      by (simp add: convert_fixed_order_def)
    ultimately show ?thesis using Cons.IH [OF rest] by simp
  qed
qed

text \<open>The map of a row holds, for a header, the value of its last column.\<close>

lemma foldl_update_other:
  "k \<notin> set hs \<Longrightarrow>
   foldl (\<lambda>m (h, d). m(h \<mapsto> g h d)) m (zip hs ds) k = m k"
proof (induction hs arbitrary: ds m)
  case Nil
  show ?case by simp
next
  case (Cons h hs)
  then show ?case by (cases ds) auto
qed

lemma foldl_update_last:
  assumes "length hs = length ds" "i < length hs" "hs ! i \<notin> set (drop (Suc i) hs)"
  shows "foldl (\<lambda>m (h, d). m(h \<mapsto> g h d)) m (zip hs ds) (hs ! i) = Some (g (hs ! i) (ds ! i))"
  using assms
proof (induction hs arbitrary: ds m i)
  case Nil
  then show ?case by simp
next
  case (Cons h hs)
  then obtain d ds' where ds: "ds = d # ds'" by (cases ds) auto
  show ?case
  proof (cases i)
    case 0
    with Cons.prems(3) have "h \<notin> set hs" by simp
    from foldl_update_other [OF this, of g "m(h \<mapsto> g h d)" ds']
    have "foldl (\<lambda>m (h, d). m(h \<mapsto> g h d)) (m(h \<mapsto> g h d)) (zip hs ds') h = Some (g h d)"
      by simp
    with 0 ds show ?thesis
      by (simp del: fun_upd_apply)
  next
    case (Suc i')
    with Cons.prems ds have "length hs = length ds'" "i' < length hs"
      "hs ! i' \<notin> set (drop (Suc i') hs)"
      by simp_all
    from Cons.IH [OF this, of "m(h \<mapsto> g h d)"] Suc ds show ?thesis
      by (simp del: fun_upd_apply)
  qed
qed

lemma rowData_last:
  assumes "length hs = length ds" "i < length hs" "hs ! i \<notin> set (drop (Suc i) hs)"
  shows "rowData F v hs ds (hs ! i) = Some (typed_value F v (hs ! i) (ds ! i))"
  unfolding rowData_def by (rule foldl_update_last [OF assms])


text \<open>
  Two schemas that declare one property, \<open>age\<close>, with the types \<open>number\<close> and
  \<open>integer\<close> in either order. Both reject a row whose \<open>age\<close> is still a
  string.
\<close>

definition age_schema :: "string list \<Rightarrow> nat schema_Validator" where
  "age_schema types =
    \<lparr>schema = \<lparr>Properties = [''age'' \<mapsto> types],
       schema_Validate = (\<lambda>rd. case rd ''age'' of
           Some (AnyString s) \<Rightarrow>
             Invalid (ValidationError [] ''doesn't validate''
               [ValidationError ''/age'' ''expected number or integer, but got string'' []])
         | _ \<Rightarrow> Accepted)\<rparr>\<rparr>"

text \<open>
  C3, as stated, fails: with the types declared as \<open>number\<close>, \<open>integer\<close> the
  field \<open>5\<close> is validated as the float 5, where the fixed order gives the integer 5.
\<close>

theorem conversion_order_counterexample:
  "rowData digit_floats (age_schema [''number'', ''integer'']) [''age''] [''5''] ''age''
     = Some (AnyFloat 5)
   \<and> convert_fixed_order digit_floats [''number'', ''integer''] ''5'' = AnyInt 5"
proof
  have "ParseFloat digit_floats ''5'' = Some 5"
    by (simp add: digit_floats_def is_digit_def decimal_def)
  then have "convert digit_floats [''number'', ''integer''] ''5'' = AnyFloat 5"
    by simp
  then show "rowData digit_floats (age_schema [''number'', ''integer'']) [''age''] [''5''] ''age''
     = Some (AnyFloat 5)"
    by (simp add: rowData_def typed_value_def age_schema_def)
  have "Atoi ''5'' = Some 5"
    by (simp add: Atoi_def is_digit_def decimal_def)
  then show "convert_fixed_order digit_floats [''number'', ''integer''] ''5'' = AnyInt 5"
    by (simp add: convert_fixed_order_def)
qed

text \<open>
  C3, amended. For a header with a declared property (at its last column, when the
  name occurs more than once) the value that is validated is the conversion of the raw
  field in the order of the declared types: the first declared type that is
  \<open>integer\<close> and converts with \<open>Atoi\<close>, or is \<open>number\<close> and converts with
  \<open>ParseFloat\<close>, gives the value, and the raw string stays when there is none. This
  is the fixed order integer, number, string whenever no \<open>number\<close> is declared
  before the first \<open>integer\<close>.
\<close>

theorem conversion_in_declared_order:
  assumes "length hs = length ds" "i < length hs" "hs ! i \<notin> set (drop (Suc i) hs)"
    and "Properties (schema v) (hs ! i) = Some types"
  shows "rowData F v hs ds (hs ! i) = Some (convert F types (ds ! i))
     \<and> convert F types (ds ! i) =
         (case find (converts F (ds ! i)) types of
            None \<Rightarrow> AnyString (ds ! i)
          | Some t \<Rightarrow> if t = ''integer'' then AnyInt (the (Atoi (ds ! i)))
                      else AnyFloat (the (ParseFloat F (ds ! i))))
     \<and> (''number'' \<notin> set (takeWhile (\<lambda>t. t \<noteq> ''integer'') types) \<longrightarrow>
          convert F types (ds ! i) = convert_fixed_order F types (ds ! i))"
proof (intro conjI impI)
  from rowData_last [OF assms(1-3), of F v] assms(4)
  show "rowData F v hs ds (hs ! i) = Some (convert F types (ds ! i))"
    by (simp add: typed_value_def)
  show "convert F types (ds ! i) =
         (case find (converts F (ds ! i)) types of
            None \<Rightarrow> AnyString (ds ! i)
          | Some t \<Rightarrow> if t = ''integer'' then AnyInt (the (Atoi (ds ! i)))
                      else AnyFloat (the (ParseFloat F (ds ! i))))"
    by (rule convert_find)
next
  assume "''number'' \<notin> set (takeWhile (\<lambda>t. t \<noteq> ''integer'') types)"
  then show "convert F types (ds ! i) = convert_fixed_order F types (ds ! i)"
    by (rule convert_integer_first)
qed

theorem conversion_in_declared_order_witness:
  "length [''name'', ''age''] = length [''John'', ''30'']
   \<and> (1::nat) < length [''name'', ''age'']
   \<and> [''name'', ''age''] ! 1 \<notin> set (drop (Suc 1) [''name'', ''age''])
   \<and> Properties (schema (age_schema [''integer'', ''number''])) ([''name'', ''age''] ! 1)
       = Some [''integer'', ''number'']
   \<and> rowData digit_floats (age_schema [''integer'', ''number'']) [''name'', ''age'']
         [''John'', ''30''] ''age'' = Some (AnyInt 30)
   \<and> convert digit_floats [''integer'', ''number''] ''30'' = AnyInt 30
   \<and> ''number'' \<notin> set (takeWhile (\<lambda>t. t \<noteq> ''integer'') [''integer'', ''number''])
   \<and> convert_fixed_order digit_floats [''integer'', ''number''] ''30'' = AnyInt 30"
proof -
  have h: "length [''name'', ''age''] = length [''John'', ''30'']"
    "(1::nat) < length [''name'', ''age'']"
    "[''name'', ''age''] ! 1 \<notin> set (drop (Suc 1) [''name'', ''age''])"
    "Properties (schema (age_schema [''integer'', ''number''])) ([''name'', ''age''] ! 1)
       = Some [''integer'', ''number'']"
    by (simp_all add: age_schema_def)
  have a: "Atoi ''30'' = Some 30"
    by (simp add: Atoi_def is_digit_def decimal_def)
  then have c: "convert digit_floats [''integer'', ''number''] ''30'' = AnyInt 30"
    by simp
  have nn: "''number'' \<notin> set (takeWhile (\<lambda>t. t \<noteq> ''integer'') [''integer'', ''number''])"
    by simp
  have fx: "convert_fixed_order digit_floats [''integer'', ''number''] ''30'' = AnyInt 30"
    using a by (simp add: convert_fixed_order_def)
  from conversion_in_declared_order [OF h, of digit_floats]
  have "rowData digit_floats (age_schema [''integer'', ''number'']) [''name'', ''age'']
         [''John'', ''30''] ([''name'', ''age''] ! 1)
       = Some (convert digit_floats [''integer'', ''number''] ([''John'', ''30''] ! 1))"
    by (rule conjunct1)
  then have r: "rowData digit_floats (age_schema [''integer'', ''number'']) [''name'', ''age'']
         [''John'', ''30''] ''age'' = Some (AnyInt 30)"
    using c by simp
  show ?thesis
    using h r c nn fx by (intro conjI)
qed

section \<open>Schema resolution (package schema, resolve.go)\<close>

text \<open>
  The file system is a parameter: what \<open>os.Stat\<close> finds at a path.
\<close>

datatype FileInfo = NotExist | StatError | Directory | RegularFile

type_synonym FileSystem = "string \<Rightarrow> FileInfo"

definition fileExists :: "FileSystem \<Rightarrow> string \<Rightarrow> bool" where
  "fileExists fs path = (fs path = RegularFile)"

text \<open>
  Paths, with \<open>/\<close> as separator. \<open>elements\<close> are the non-empty parts of a path
  between separators. A cleaned path is kept as \<open>Path rooted es\<close>: whether it starts
  at the root, and its elements; \<open>path_string\<close> writes it as \<open>filepath.Clean\<close>
  returns it.
\<close>

fun elements :: "string \<Rightarrow> string \<Rightarrow> string list" where
  "elements cur [] = (if cur = [] then [] else [cur])"
| "elements cur (c # cs) =
    (if c = CHR ''/'' then (if cur = [] then [] else [cur]) @ elements [] cs
     else elements (cur @ [c]) cs)"

datatype path = Path bool "string list"

definition clean_step :: "bool \<Rightarrow> string list \<Rightarrow> string \<Rightarrow> string list" where
  "clean_step rooted out e =
    (if e = ''.'' then out
     else if e = ''..'' then
       (if out \<noteq> [] \<and> last out \<noteq> ''..'' then butlast out
        else if rooted then out
        else out @ [e])
     else out @ [e])"

definition Clean_path :: "string \<Rightarrow> path" where
  "Clean_path s =
    Path (s \<noteq> [] \<and> hd s = CHR ''/'')
         (foldl (clean_step (s \<noteq> [] \<and> hd s = CHR ''/'')) [] (elements [] s))"

fun join_elements :: "string list \<Rightarrow> string" where
  "join_elements [] = []"
| "join_elements [e] = e"
| "join_elements (e # es) = e @ ''/'' @ join_elements es"

fun path_string :: "path \<Rightarrow> string" where
  "path_string (Path rooted es) =
    (if rooted then ''/'' @ join_elements es
     else if es = [] then ''.''
     else join_elements es)"

definition Clean :: "string \<Rightarrow> string" where
  "Clean s = path_string (Clean_path s)"

text \<open>
  \<open>filepath.Dir\<close>, \<open>filepath.Base\<close>, \<open>filepath.Ext\<close> and
  \<open>filepath.Join\<close> of two elements.
\<close>

definition not_slash :: "char \<Rightarrow> bool" where
  "not_slash c = (c \<noteq> CHR ''/'')"

definition Dir_path :: "string \<Rightarrow> path" where
  "Dir_path s = Clean_path (rev (dropWhile not_slash (rev s)))"

definition Dir :: "string \<Rightarrow> string" where
  "Dir s = path_string (Dir_path s)"

definition Base :: "string \<Rightarrow> string" where
  "Base s =
    (if s = [] then ''.''
     else
       let b = rev (takeWhile not_slash (dropWhile (\<lambda>c. c = CHR ''/'') (rev s)))
       in if b = [] then ''/'' else b)"

definition Ext :: "string \<Rightarrow> string" where
  "Ext s =
    (let l = rev (takeWhile not_slash (rev s))
     in if CHR ''.'' \<in> set l then CHR ''.'' # rev (takeWhile (\<lambda>c. c \<noteq> CHR ''.'') (rev l))
        else [])"

definition Join :: "string \<Rightarrow> string \<Rightarrow> string" where
  "Join a b =
    (if a \<noteq> [] then Clean (a @ ''/'' @ b)
     else if b \<noteq> [] then Clean b
     else [])"

text \<open>
  The parent of a cleaned path: \<open>filepath.Dir\<close> of a path that is already clean
  drops its last element, and leaves the root and the path \<open>.\<close> as they are.
\<close>

fun parent :: "path \<Rightarrow> path" where
  "parent (Path rooted es) = Path rooted (butlast es)"

text \<open>The markers of a project root.\<close>

definition projectRootIndicators :: "string list" where
  "projectRootIndicators = [''.git'', ''package.json'']"

definition isProjectRoot :: "FileSystem \<Rightarrow> path \<Rightarrow> bool" where
  "isProjectRoot fs dir =
    list_ex (\<lambda>marker. fileExists fs (Join (path_string dir) marker)) projectRootIndicators"

definition isSystemRoot :: "path \<Rightarrow> bool" where
  "isSystemRoot dir = (dir = parent dir)"

text \<open>
  The loop of step 3 of \<open>ResolveSchema\<close>, from the directory \<open>dir\<close> upwards. The
  empty string is the result when the loop is left by \<open>break\<close>.
\<close>

function walk_up :: "FileSystem \<Rightarrow> path \<Rightarrow> string" where
  "walk_up fs dir =
    (if isProjectRoot fs dir \<or> isSystemRoot dir then []
     else if fileExists fs (Join (path_string dir) ''csvlinter.schema.json'')
       then Join (path_string dir) ''csvlinter.schema.json''
     else if parent dir = dir then []
     else walk_up fs (parent dir))"
  by pat_completeness auto
termination
proof (relation "measure (\<lambda>(fs, dir). case dir of Path rooted es \<Rightarrow> length es)", goal_cases)
  case 1
  show ?case by simp
next
  case (2 fs dir)
  obtain rooted es where dir: "dir = Path rooted es" by (cases dir)
  with 2(3) have "es \<noteq> []" by auto
  with dir show ?case by simp
qed

declare walk_up.simps [simp del]

definition ResolveSchema :: "FileSystem \<Rightarrow> string \<Rightarrow> string" where
  "ResolveSchema fs csvPath =
    (let csvDir = Dir_path csvPath;
         csvBase = Base csvPath;
         csvName = take (length csvBase - length (Ext csvBase)) csvBase
     in if fileExists fs (Join (path_string csvDir) (csvName @ ''.schema.json''))
          then Join (path_string csvDir) (csvName @ ''.schema.json'')
        else if fileExists fs (Join (path_string csvDir) ''csvlinter.schema.json'')
          then Join (path_string csvDir) ''csvlinter.schema.json''
        else walk_up fs csvDir)"

text \<open>
  At a project root, and at the root of the file system, the loop is left before the
  directory's own \<open>csvlinter.schema.json\<close> is looked at.
\<close>

lemma walk_up_stops_first:
  "isProjectRoot fs dir \<or> isSystemRoot dir \<Longrightarrow> walk_up fs dir = []"
  by (subst walk_up.simps) simp

text \<open>
  A project with a package manifest: \<open>/proj\<close> holds \<open>package.json\<close> and
  \<open>csvlinter.schema.json\<close>, and the CSV file is \<open>/proj/sub/file.csv\<close>.
\<close>

definition npm_project :: FileSystem where
  "npm_project p =
    (if p \<in> {''/proj/package.json'', ''/proj/csvlinter.schema.json'', ''/proj/sub/file.csv''}
       then RegularFile
     else if p \<in> {''/'', ''/proj'', ''/proj/sub''} then Directory
     else NotExist)"

text \<open>
  The project of the package's test: \<open>/tmp/project\<close> holds the directory
  \<open>.git\<close> and \<open>csvlinter.schema.json\<close>, the CSV file is
  \<open>/tmp/project/sub/nested/file.csv\<close>; here a second schema file lies above the
  project, at \<open>/tmp/csvlinter.schema.json\<close>.
\<close>

definition git_project :: "bool \<Rightarrow> FileSystem" where
  "git_project schema_in_project p =
    (if p \<in> {''/tmp/csvlinter.schema.json'', ''/tmp/project/sub/nested/file.csv''}
       then RegularFile
     else if p = ''/tmp/project/csvlinter.schema.json''
       then (if schema_in_project then RegularFile else NotExist)
     else if p \<in> {''/'', ''/tmp'', ''/tmp/project'', ''/tmp/project/.git'', ''/tmp/project/sub'',
                  ''/tmp/project/sub/nested''} then Directory
     else NotExist)"

lemma git_project_test:
  "ResolveSchema (git_project True) ''/tmp/project/sub/nested/file.csv''
     = ''/tmp/project/csvlinter.schema.json''"
  by code_simp

text \<open>
  A directory \<open>.git\<close> is not taken for a marker, since \<open>fileExists\<close> holds of
  regular files only: the walk goes on above such a project.
\<close>

lemma git_directory_is_no_marker:
  "\<not> isProjectRoot (git_project False) (Path True [''tmp'', ''project''])
   \<and> ResolveSchema (git_project False) ''/tmp/project/sub/nested/file.csv''
       = ''/tmp/csvlinter.schema.json''"
  by code_simp

text \<open>
  C4. In the project with the package manifest the directory \<open>/proj\<close> is a project
  root and holds \<open>csvlinter.schema.json\<close>, yet the walk from \<open>/proj/sub\<close> returns
  the empty string: the schema file of the project root is not found.
\<close>

theorem project_root_schema_not_found:
  "isProjectRoot npm_project (Path True [''proj''])
   \<and> fileExists npm_project ''/proj/csvlinter.schema.json''
   \<and> Dir ''/proj/sub/file.csv'' = ''/proj/sub''
   \<and> walk_up npm_project (Path True [''proj'', ''sub'']) = []
   \<and> ResolveSchema npm_project ''/proj/sub/file.csv'' = []"
  by code_simp

section \<open>The validation engine over an input stream\<close>

text \<open>
  Modelled from the spec: the loop over the rows of the validation engine that reads
  from an input stream, and below it the engine's \<open>Validate\<close>. The
  command and the test of the package \<open>validator\<close> create it with
  \<open>New(input, name, delimiter, schemaValidator, failFast)\<close> and call its
  \<open>Validate\<close>; the source of this \<open>New\<close> and \<open>Validate\<close> is missing, the
  \<open>Validate\<close> above being the one that opens a file. The model follows the states
  of section 4.4 of the specification over the stream reader: the reader is
  constructed and the encoding validated, and a failure there completes the run with a
  single error of type encoding and \<open>Valid = false\<close>; a failure to read the headers
  aborts the run with no result; the loop reads one row at a time up to the end of the
  input, appends a structure error on a count mismatch and one schema error for each
  issue of the schema validator, and stops after a row once fail-fast is set and an
  error has been appended; every result carries the number of rows read and, in
  \<open>SchemaUsed\<close>, whether a schema was supplied. The validator record holds the name
  of the input in place of the file path. What the specification leaves open, the
  texts that wrap an operational error, is taken from \<open>Validate\<close> above.
\<close>

function validate_rows_stream :: "'f float64 \<Rightarrow> 'f Validator \<Rightarrow> string list \<Rightarrow> Parser \<Rightarrow> Error list
    \<Rightarrow> nat \<Rightarrow> error + (Error list \<times> nat \<times> Parser)" where
  "validate_rows_stream F v hs p errors totalRows =
    (case ReadRow p of
       (Inl err, p') \<Rightarrow>
         if err = io_EOF then Inr (errors, totalRows, p')
         else Inl (Errorf ''failed to read row: '' err)
     | (Inr row, p') \<Rightarrow>
         (case row_errors F v hs row of
            Inl err \<Rightarrow> Inl err
          | Inr es \<Rightarrow>
              if failFast v \<and> errors @ es \<noteq> [] then Inr (errors @ es, totalRows + 1, p')
              else validate_rows_stream F v hs p' (errors @ es) (totalRows + 1)))"
  by pat_completeness auto
termination
proof (relation "measure (\<lambda>(F, v, hs, p, errors, totalRows). length (unread (reader p)))",
    goal_cases)
  case 1
  show ?case by simp
next
  case (2 F v hs p errors totalRows x1 p' row es)
  then have "ReadRow p = (Inr row, p')" by simp
  from ReadRow_shorter [OF this] show ?case by simp
qed

declare validate_rows_stream.simps [simp del]

text \<open>
  Modelled from the spec: \<open>Validate\<close> of the engine over an input stream, from the
  construction of the reader to the result.
\<close>

definition Validate_stream :: "'f float64 \<Rightarrow> io_Reader \<Rightarrow> 'f Validator \<Rightarrow> string \<Rightarrow> error + Results" where
  "Validate_stream F inp v dur =
    (case NewParser inp (vdelimiter v) of
       Inl err \<Rightarrow> Inl (wrap ''failed to create parser: '' err)
     | Inr p0 \<Rightarrow>
         (case ValidateUTF8 p0 of
            (Some err, p1) \<Rightarrow>
              Inr \<lparr>File = filePath v, TotalRows = 0,
                   Errors = [\<lparr>LineNumber = 0, Field' = [], Message = Error_msg err, Value = [],
                              Type = ''encoding''\<rparr>],
                   Warnings = [], Duration = dur, Valid = False,
                   SchemaUsed = (schemaValidator v \<noteq> None)\<rparr>
          | (None, p1) \<Rightarrow>
              (case ReadHeaders p1 of
                 (Inl err, p2) \<Rightarrow> Inl (Errorf ''failed to read headers: '' err)
               | (Inr hs, p2) \<Rightarrow>
                   (case validate_rows_stream F v hs p2 [] 0 of
                      Inl err \<Rightarrow> Inl err
                    | Inr (errors, totalRows, p3) \<Rightarrow>
                        Inr \<lparr>File = filePath v, TotalRows = totalRows, Errors = errors,
                             Warnings = [], Duration = dur, Valid = (errors = []),
                             SchemaUsed = (schemaValidator v \<noteq> None)\<rparr>))))"

text \<open>
  On this engine an input that is not valid UTF-8 gives a result with one error of type
  encoding, and an input without a record gives no result but an error whose message
  says \<open>empty input: no headers found\<close>.
\<close>

lemma Validate_stream_encoding_and_empty:
  assumes "vdelimiter v = c # cs"
  shows "(\<not> utf8_Valid bytes \<longrightarrow>
       (\<exists>res. Validate_stream F (Reader bytes None) v dur = Inr res \<and> \<not> Valid res
          \<and> Errors res = [\<lparr>LineNumber = 0, Field' = [],
                Message = ''input contains invalid UTF-8 encoding'', Value = [],
                Type = ''encoding''\<rparr>]))
     \<and> (validDelim c \<and> utf8_Valid bytes \<and> csv_ReadAll c bytes = [] \<longrightarrow>
       (\<exists>err. Validate_stream F (Reader bytes None) v dur = Inl err
          \<and> Error_msg err = ''failed to read headers: empty input: no headers found''))"
proof (intro conjI impI)
  assume "\<not> utf8_Valid bytes"
  with assms show "\<exists>res. Validate_stream F (Reader bytes None) v dur = Inr res \<and> \<not> Valid res
          \<and> Errors res = [\<lparr>LineNumber = 0, Field' = [],
                Message = ''input contains invalid UTF-8 encoding'', Value = [],
                Type = ''encoding''\<rparr>]"
    by (simp add: Validate_stream_def NewParser_def ValidateUTF8_def)
next
  assume a: "validDelim c \<and> utf8_Valid bytes \<and> csv_ReadAll c bytes = []"
  from a csv_Read_EOF [of "\<lparr>Comma = c, unread = bytes\<rparr>"]
  obtain r' where "csv_Read \<lparr>Comma = c, unread = bytes\<rparr> = (Inl io_EOF, r')"
    by auto
  with assms a have "Validate_stream F (Reader bytes None) v dur =
      Inl (Errorf ''failed to read headers: '' (New ''empty input: no headers found''))"
    by (simp add: Validate_stream_def NewParser_def ValidateUTF8_def ReadHeaders_def
        csv_NewReader_def)
  then show "\<exists>err. Validate_stream F (Reader bytes None) v dur = Inl err
      \<and> Error_msg err = ''failed to read headers: empty input: no headers found''"
    by simp
qed

section \<open>The command validate (package cmd)\<close>

text \<open>
  \<open>io.LimitReader(r, n)\<close>: it reads from \<open>r\<close> and reports the end of the input
  after \<open>n\<close> bytes. A failure of \<open>r\<close> shows only when \<open>r\<close> ends before that.
\<close>

fun LimitReader :: "io_Reader \<Rightarrow> int \<Rightarrow> io_Reader" where
  "LimitReader (Reader bs failure) n =
    (if int (length bs) < n then Reader bs failure else Reader (take (nat n) bs) None)"

text \<open>
  The flags of the command with their defaults, and what the command takes from its
  surroundings: standard input, \<open>os.Open\<close>, \<open>os.Stat\<close>, the loading of a schema
  (\<open>schema.NewValidator\<close>, which compiles the schema with the library), and the float
  functions.
\<close>

record Flags =
  schemaFlag :: string
  outputFlag :: string
  formatFlag :: string
  delimiterFlag :: string
  failFastFlag :: bool
  maxSizeFlag :: int

definition default_Flags :: Flags where
  "default_Flags =
    \<lparr>schemaFlag = [], outputFlag = [], formatFlag = ''pretty'', delimiterFlag = '','',
     failFastFlag = False, maxSizeFlag = 10 * 1024 * 1024\<rparr>"

record 'f System =
  Stdin :: io_Reader
  Open :: "string \<Rightarrow> error + io_Reader"
  Stat :: FileSystem
  NewValidator :: "string \<Rightarrow> error + 'f schema_Validator"
  floats :: "'f float64"

text \<open>An error of the command is \<open>cli.Exit(message, 1)\<close>.\<close>

definition Exit :: "string \<Rightarrow> error" where
  "Exit message = New message"

definition apostrophe :: string where
  "apostrophe = [CHR 0x27]"

text \<open>The input and the name the command validates.\<close>

definition open_input :: "'f System \<Rightarrow> Flags \<Rightarrow> string \<Rightarrow> error + (io_Reader \<times> string)" where
  "open_input sys flags csvPath =
    (if csvPath = ''-'' then Inr (LimitReader (Stdin sys) (maxSizeFlag flags), ''STDIN'')
     else
       (case Open sys csvPath of
          Inl err \<Rightarrow>
            Inl (Exit (''Error: Cannot open file '' @ apostrophe @ csvPath @ apostrophe @ '': ''
                       @ Error_msg err))
        | Inr file \<Rightarrow> Inr (file, csvPath)))"

text \<open>The schema validator of the run: none when the schema path is empty.\<close>

definition load_schema :: "'f System \<Rightarrow> string \<Rightarrow> error + 'f schema_Validator option" where
  "load_schema sys schemaPath =
    (if schemaPath \<noteq> [] then
       (if Stat sys schemaPath = NotExist then
          Inl (Exit (''Error: Schema file '' @ apostrophe @ schemaPath @ apostrophe
                     @ '' does not exist''))
        else
          (case NewValidator sys schemaPath of
             Inl err \<Rightarrow> Inl (Exit (''Error loading schema: '' @ Error_msg err))
           | Inr sv \<Rightarrow> Inr (Some sv)))
     else Inr None)"

text \<open>
  \<open>validateAction\<close> up to the result of \<open>Validate\<close>, which the command hands to
  the reporter. The validator it creates is the engine over an input stream.
\<close>

definition validateAction :: "'f System \<Rightarrow> Flags \<Rightarrow> string list \<Rightarrow> string \<Rightarrow> error + Results" where
  "validateAction sys flags args dur =
    (if length args < 1 then Inl (Exit ''Error: CSV file path or - for STDIN is required'')
     else
       (case open_input sys flags (args ! 0) of
          Inl e \<Rightarrow> Inl e
        | Inr (inp, name) \<Rightarrow>
            (case load_schema sys
                    (if schemaFlag flags = [] \<and> args ! 0 \<noteq> ''-''
                     then ResolveSchema (Stat sys) (args ! 0) else schemaFlag flags) of
               Inl e \<Rightarrow> Inl e
             | Inr sv \<Rightarrow>
                 if formatFlag flags \<noteq> ''pretty'' \<and> formatFlag flags \<noteq> ''json''
                 then Inl (Exit (''Error: Format must be '' @ apostrophe @ ''pretty'' @ apostrophe
                                 @ '' or '' @ apostrophe @ ''json'' @ apostrophe))
                 else
                   (case Validate_stream (floats sys) inp
                           \<lparr>filePath = name, vdelimiter = delimiterFlag flags,
                            schemaValidator = sv, failFast = failFastFlag flags\<rparr> dur of
                      Inl err \<Rightarrow>
                        Inl (if is_Panic err then err
                             else Exit (''Error during validation: '' @ Error_msg err))
                    | Inr results \<Rightarrow> Inr results))))"

section \<open>The size limit of standard input (C5)\<close>

text \<open>
  A system whose standard input holds a header and two rows, twelve bytes in all,
  and whose file system is empty.
\<close>

definition piped :: "nat System" where
  "piped =
    \<lparr>Stdin = Reader ''a,b\<newline>1,2\<newline>3,4\<newline>'' None,
     Open = (\<lambda>p. Inl (New ''no such file or directory'')),
     Stat = (\<lambda>p. NotExist),
     NewValidator = (\<lambda>p. Inl (New ''failed to read schema file'')),
     floats = digit_floats\<rparr>"

text \<open>
  C5, as stated, fails: with a limit of 8 bytes the twelve bytes of standard input are
  cut after the first row. The parser reads the header and one row from the limited
  input and then its end, and the command returns a result, valid and with one row,
  instead of an error.
\<close>

theorem size_limit_counterexample:
  "(8::int) < int (length ''a,b\<newline>1,2\<newline>3,4\<newline>'')
   \<and> read_input (LimitReader (Stdin piped) 8) '','' =
       Inr ([''a'', ''b''], [mkrow 2 [''1'', ''2''] [''a'', ''b'']], io_EOF)
   \<and> validateAction piped (default_Flags\<lparr>maxSizeFlag := 8\<rparr>) [''-''] ''1ms'' =
       Inr \<lparr>File = ''STDIN'', TotalRows = 1, Errors = [], Warnings = [], Duration = ''1ms'',
            Valid = True, SchemaUsed = False\<rparr>"
  by code_simp

text \<open>
  C5, amended. When the input is standard input, the command reads at most
  \<open>max-size\<close> bytes of it (10 MiB unless the caller sets the flag). An input that
  reaches or exceeds the limit is cut at the limit, and the command does with the bytes
  before the limit what it does with an input that ends there: the parser is the
  parser over those bytes, and the outcome of the command is the outcome of validating
  them, their result or the error they cause. No error is raised for the size.
\<close>

theorem size_limit_truncates:
  assumes "args \<noteq> []" "args ! 0 = ''-''" "Stdin sys = Reader bytes failure"
    and "maxSizeFlag flags \<le> int (length bytes)"
    and "load_schema sys (schemaFlag flags) = Inr sv"
    and "formatFlag flags = ''pretty'' \<or> formatFlag flags = ''json''"
  shows "validateAction sys flags args dur =
      (case Validate_stream (floats sys) (Reader (take (nat (maxSizeFlag flags)) bytes) None)
              \<lparr>filePath = ''STDIN'', vdelimiter = delimiterFlag flags, schemaValidator = sv,
               failFast = failFastFlag flags\<rparr> dur of
         Inl err \<Rightarrow>
           Inl (if is_Panic err then err else Exit (''Error during validation: '' @ Error_msg err))
       | Inr results \<Rightarrow> Inr results)
     \<and> NewParser (LimitReader (Stdin sys) (maxSizeFlag flags)) (delimiterFlag flags)
         = NewParser (Reader (take (nat (maxSizeFlag flags)) bytes) None) (delimiterFlag flags)
     \<and> maxSizeFlag default_Flags = 10485760"
proof (intro conjI)
  from assms(1) have "\<not> length args < 1" by (cases args) simp_all
  moreover from assms(2-4) have
    "open_input sys flags (args ! 0) =
       Inr (Reader (take (nat (maxSizeFlag flags)) bytes) None, ''STDIN'')"
    by (simp add: open_input_def)
  ultimately show "validateAction sys flags args dur =
      (case Validate_stream (floats sys) (Reader (take (nat (maxSizeFlag flags)) bytes) None)
              \<lparr>filePath = ''STDIN'', vdelimiter = delimiterFlag flags, schemaValidator = sv,
               failFast = failFastFlag flags\<rparr> dur of
         Inl err \<Rightarrow>
           Inl (if is_Panic err then err else Exit (''Error during validation: '' @ Error_msg err))
       | Inr results \<Rightarrow> Inr results)"
    using assms(2,5,6) unfolding validateAction_def by auto
  from assms(3,4)
  show "NewParser (LimitReader (Stdin sys) (maxSizeFlag flags)) (delimiterFlag flags)
      = NewParser (Reader (take (nat (maxSizeFlag flags)) bytes) None) (delimiterFlag flags)"
    by simp
  show "maxSizeFlag default_Flags = 10485760"
    by (simp add: default_Flags_def)
qed


theorem size_limit_truncates_witness:
  "[''-''] \<noteq> [] \<and> [''-''] ! 0 = ''-''
   \<and> Stdin piped = Reader ''a,b\<newline>1,2\<newline>3,4\<newline>'' None
   \<and> maxSizeFlag (default_Flags\<lparr>maxSizeFlag := 8\<rparr>) \<le> int (length ''a,b\<newline>1,2\<newline>3,4\<newline>'')
   \<and> load_schema piped (schemaFlag (default_Flags\<lparr>maxSizeFlag := 8\<rparr>)) = Inr None
   \<and> formatFlag (default_Flags\<lparr>maxSizeFlag := 8\<rparr>) = ''pretty''
   \<and> take (nat (maxSizeFlag (default_Flags\<lparr>maxSizeFlag := 8\<rparr>))) ''a,b\<newline>1,2\<newline>3,4\<newline>''
       = ''a,b\<newline>1,2\<newline>''
   \<and> Validate_stream (floats piped) (Reader ''a,b\<newline>1,2\<newline>'' None)
        \<lparr>filePath = ''STDIN'', vdelimiter = '','', schemaValidator = None, failFast = False\<rparr>
        ''1ms'' =
       Inr \<lparr>File = ''STDIN'', TotalRows = 1, Errors = [], Warnings = [], Duration = ''1ms'',
            Valid = True, SchemaUsed = False\<rparr>
   \<and> validateAction piped (default_Flags\<lparr>maxSizeFlag := 8\<rparr>) [''-''] ''1ms'' =
       Inr \<lparr>File = ''STDIN'', TotalRows = 1, Errors = [], Warnings = [], Duration = ''1ms'',
            Valid = True, SchemaUsed = False\<rparr>"
proof -
  let ?flags = "default_Flags\<lparr>maxSizeFlag := 8\<rparr>"
  have h: "[''-''] \<noteq> []" "[''-''] ! 0 = ''-''"
    "Stdin piped = Reader ''a,b\<newline>1,2\<newline>3,4\<newline>'' None"
    "maxSizeFlag ?flags \<le> int (length ''a,b\<newline>1,2\<newline>3,4\<newline>'')"
    "load_schema piped (schemaFlag ?flags) = Inr None"
    "formatFlag ?flags = ''pretty'' \<or> formatFlag ?flags = ''json''"
    by (simp_all add: piped_def default_Flags_def load_schema_def)
  have cut: "take (nat (maxSizeFlag ?flags)) ''a,b\<newline>1,2\<newline>3,4\<newline>'' = ''a,b\<newline>1,2\<newline>''"
    by (simp add: default_Flags_def)
  have run: "Validate_stream (floats piped) (Reader ''a,b\<newline>1,2\<newline>'' None)
        \<lparr>filePath = ''STDIN'', vdelimiter = '','', schemaValidator = None, failFast = False\<rparr>
        ''1ms'' =
       Inr \<lparr>File = ''STDIN'', TotalRows = 1, Errors = [], Warnings = [], Duration = ''1ms'',
            Valid = True, SchemaUsed = False\<rparr>"
    by code_simp
  have fl: "delimiterFlag ?flags = '',''" "failFastFlag ?flags = False"
    "formatFlag ?flags = ''pretty''"
    by (simp_all add: default_Flags_def)
  from size_limit_truncates [OF h, of "''1ms''"]
  have "validateAction piped ?flags [''-''] ''1ms'' =
       Inr \<lparr>File = ''STDIN'', TotalRows = 1, Errors = [], Warnings = [], Duration = ''1ms'',
            Valid = True, SchemaUsed = False\<rparr>"
    unfolding cut fl run by simp
  with h(1-5) fl(3) cut run show ?thesis
    by (intro conjI)
qed

text \<open>
  The cut input is validated like any other input, so it can fail where the whole
  input would not: cut to nothing it has no header, and cut inside a quoted field its
  last record is malformed. The error is then the error of the cut input; it does not
  mention the size.
\<close>

lemma size_limit_zero:
  "validateAction piped (default_Flags\<lparr>maxSizeFlag := 0\<rparr>) [''-''] ''1ms'' =
     Inl (Exit ''Error during validation: failed to read headers: empty input: no headers found'')"
  by code_simp

lemma size_limit_inside_quotes:
  "validateAction (piped\<lparr>Stdin := Reader [CHR ''a'', NL, quote, CHR ''1'', CHR ''2'', quote, NL] None\<rparr>)
       (default_Flags\<lparr>maxSizeFlag := 5\<rparr>) [''-''] ''1ms'' =
     Inl (Exit (''Error during validation: failed to read row: failed to read row 2: ''
                @ csv_error_text ErrQuote))"
  by code_simp

section \<open>Validation of the encoding (C8)\<close>

text \<open>The parser over the buffer accepts exactly the inputs that are valid UTF-8.\<close>

lemma ValidateUTF8_accepts_iff: "fst (ValidateUTF8 p) = None \<longleftrightarrow> utf8_Valid (buffer p)"
  by (simp add: ValidateUTF8_def)

lemma utf8_Valid_ascii_run:
  "(of_char a :: nat) < 0x80 \<Longrightarrow> utf8_Valid (replicate n a @ ys) = utf8_Valid ys"
  by (induction n) simp_all

text \<open>
  A file of 4097 bytes: 4095 letters \<open>a\<close> and the two bytes of U+00E9, which lie on
  either side of the end of the first chunk.
\<close>

definition straddling :: string where
  "straddling = replicate 4095 (CHR ''a'') @ [CHR 0xC3, CHR 0xA9]"

lemma straddling_valid: "utf8_Valid straddling"
  unfolding straddling_def
  by (subst utf8_Valid_ascii_run) (simp_all add: first_def in_range_def)

lemma straddling_first_chunk:
  "take 4096 straddling = replicate 4095 (CHR ''a'') @ [CHR 0xC3]"
  by (simp add: straddling_def)

lemma straddling_chunks: "\<not> chunks_valid straddling"
proof -
  have "\<not> utf8_Valid (replicate 4095 (CHR ''a'') @ [CHR 0xC3])"
    by (subst utf8_Valid_ascii_run) (simp_all add: first_def)
  moreover have "straddling \<noteq> []" by (simp add: straddling_def)
  ultimately show ?thesis
    by (subst chunks_valid.simps) (simp add: straddling_first_chunk)
qed

text \<open>
  C8. The input \<open>straddling\<close> is valid UTF-8. The parser over the buffer accepts it;
  the parser over the file rejects it with an encoding error.
\<close>

theorem chunked_validation_rejects_valid_input:
  "utf8_Valid straddling
   \<and> fst (ValidateUTF8 \<lparr>reader = csv_NewReader straddling, lineNumber = 0, headers = [],
                        buffer = straddling, delimiter = CHR '',''\<rparr>) = None
   \<and> fst (File_ValidateUTF8 \<lparr>file_bytes = straddling, file_reader = csv_NewReader straddling,
                             file_lineNumber = 0, file_headers = []\<rparr>)
       = Some (New ''file contains invalid UTF-8 encoding'')"
  using straddling_valid straddling_chunks
  by (simp add: ValidateUTF8_def File_ValidateUTF8_def)

end
